theory Spec2Isabelle
  imports Main
begin

section \<open>InvalidCommandError: the diagnostic message\<close>

text \<open>
  \<^verbatim>\<open>Number(d).toString(16)\<close> for an integer \<open>d\<close>: the digits of the magnitude in base 16,
  lowercase, without leading zeros, after a minus sign when \<open>d\<close> is negative. Numbers
  are modelled as integers here: a fraction, an infinity and NaN are not represented.
\<close>

definition hex_digit :: "nat \<Rightarrow> char" where
  "hex_digit n = ''0123456789abcdef'' ! n"

fun to_hex :: "nat \<Rightarrow> string" where
  "to_hex n = (if n < 16 then [hex_digit n] else to_hex (n div 16) @ [hex_digit (n mod 16)])"

declare to_hex.simps [simp del]

definition number_toString16 :: "int \<Rightarrow> string" where
  "number_toString16 d = (if d < 0 then ''-'' @ to_hex (nat (- d)) else to_hex (nat d))"

text \<open>
  \<^verbatim>\<open>function d2h(d) { const h = Number(d).toString(16); return h.length === 1 ? '0' + h : h; }\<close>
\<close>

definition d2h :: "int \<Rightarrow> string" where
  "d2h d = (let h = number_toString16 d in if length h = 1 then ''0'' @ h else h)"

text \<open>\<^verbatim>\<open>Array.prototype.join\<close> on an array of strings.\<close>

fun join :: "string \<Rightarrow> string list \<Rightarrow> string" where
  "join sep [] = []"
| "join sep [x] = x"
| "join sep (x # y # ys) = x @ sep @ join sep (y # ys)"

text \<open>
  The \<open>target\<close> argument is any value: a number, a string, \<^verbatim>\<open>undefined\<close>, \<^verbatim>\<open>null\<close>, a
  boolean, a BigInt, or an object, which is given by the string its conversion to a string
  returns (\<^verbatim>\<open>[object Object]\<close> for a plain object). A symbol, and an object whose
  conversion throws, are not represented.
\<close>

datatype target =
  NumT int | StrT string | UndefinedT | NullT | BoolT bool | BigIntT int | ObjT string

text \<open>
  The decimal digits of an integer, and \<^verbatim>\<open>`${target}`\<close>: the conversion of a value to a
  string, which a template literal applies to what it inserts. A string is inserted as
  it is.
\<close>

fun to_dec :: "nat \<Rightarrow> string" where
  "to_dec n = (if n < 10 then [hex_digit n] else to_dec (n div 10) @ [hex_digit (n mod 10)])"

declare to_dec.simps [simp del]

definition integer_toString :: "int \<Rightarrow> string" where
  "integer_toString d = (if d < 0 then ''-'' @ to_dec (nat (- d)) else to_dec (nat d))"

fun ToString :: "target \<Rightarrow> string" where
  "ToString (NumT d) = integer_toString d"
| "ToString (StrT s) = s"
| "ToString UndefinedT = ''undefined''"
| "ToString NullT = ''null''"
| "ToString (BoolT b) = (if b then ''true'' else ''false'')"
| "ToString (BigIntT d) = integer_toString d"
| "ToString (ObjT s) = s"

text \<open>
  The constructor. \<open>NumT\<close> is the case \<^verbatim>\<open>typeof target === 'number'\<close>, every other target
  takes the other branch. The \<open>value\<close> argument is accepted and not read. The constructor
  passes the message to \<^verbatim>\<open>Error\<close>; the model returns that message.

  \<^verbatim>\<open>if (typeof target === 'number') { message = 'with the value ' + d2h(target); }
  else { message = `called "${target}"`; }
  message = `Can't find ${type} ${message}`;
  if (context.length > 0) { message += ' (' + context.join(', ') + ')'; }\<close>
\<close>

definition InvalidCommandError :: "'v \<Rightarrow> string \<Rightarrow> target \<Rightarrow> string list \<Rightarrow> string" where
  "InvalidCommandError value type target context =
     (let message = (case target of
                       NumT d \<Rightarrow> ''with the value '' @ d2h d
                     | _ \<Rightarrow> ''called \"'' @ ToString target @ ''\"'');
          message = ''Can't find '' @ type @ '' '' @ message
      in if length context > 0 then message @ '' ('' @ join '', '' context @ '')'' else message)"

text \<open>
  Reading a string of lowercase hexadecimal digits back as a number: the reference the
  rendering of \<open>d2h\<close> is compared with.
\<close>

definition hex_digit_val :: "char \<Rightarrow> nat" where
  "hex_digit_val c = (if c \<in> set ''0123456789'' then of_char c - 48 else of_char c - 87)"

definition hex_val :: "string \<Rightarrow> nat" where
  "hex_val s = foldl (\<lambda>a c. 16 * a + hex_digit_val c) 0 s"


section \<open>JavaScript values and the array methods the class calls\<close>

text \<open>
  The values an enumeration holds and is queried with. A number is an integer or NaN
  (a fraction or an infinity compares like any other number; \<open>-0\<close> is identified with
  \<open>0\<close>, which \<^verbatim>\<open>===\<close> and \<^verbatim>\<open>includes\<close> cannot tell apart). \<open>JRef\<close> is a reference to an
  object, compared by identity. No value of the model can be called: a function as the
  value of a member (which only a getter could return) is not represented.
\<close>

datatype jsval = JUndefined | JNull | JBool bool | JNum int | JNaN | JStr string | JRef nat

text \<open>\<^verbatim>\<open>a === b\<close>: equal values of one type, and NaN equals nothing.\<close>

definition strict_eq :: "jsval \<Rightarrow> jsval \<Rightarrow> bool" where
  "strict_eq a b = (a \<noteq> JNaN \<and> a = b)"

text \<open>SameValueZero (used by \<^verbatim>\<open>includes\<close>) and SameValue (used by property definition):
  as \<^verbatim>\<open>===\<close>, but NaN equals NaN.\<close>

definition same_value_zero :: "jsval \<Rightarrow> jsval \<Rightarrow> bool" where
  "same_value_zero a b = (a = b)"

definition same_value :: "jsval \<Rightarrow> jsval \<Rightarrow> bool" where
  "same_value a b = (a = b)"

text \<open>\<^verbatim>\<open>s.findIndex(p)\<close>: the first index whose element satisfies \<open>p\<close>, or \<open>-1\<close>.\<close>

fun Array_findIndex :: "('a \<Rightarrow> bool) \<Rightarrow> 'a list \<Rightarrow> int" where
  "Array_findIndex p [] = -1"
| "Array_findIndex p (x # xs) =
     (if p x then 0 else (let i = Array_findIndex p xs in if i < 0 then -1 else i + 1))"

text \<open>\<^verbatim>\<open>s.indexOf(v)\<close> compares with \<^verbatim>\<open>===\<close>; \<^verbatim>\<open>s.includes(v)\<close> with SameValueZero.\<close>

definition Array_indexOf :: "jsval list \<Rightarrow> jsval \<Rightarrow> int" where
  "Array_indexOf s v = Array_findIndex (\<lambda>x. strict_eq x v) s"

definition Array_includes :: "jsval list \<Rightarrow> jsval \<Rightarrow> bool" where
  "Array_includes s v = list_ex (\<lambda>x. same_value_zero x v) s"

text \<open>\<^verbatim>\<open>s.filter((v, i, s) => s.indexOf(v) === i)\<close>\<close>

definition filter_first_index :: "jsval list \<Rightarrow> jsval list" where
  "filter_first_index s =
     map fst (filter (\<lambda>(v, i). Array_indexOf s v = int i) (zip s [0..<length s]))"


section \<open>Ordinary objects: own properties and their attributes\<close>

text \<open>
  A function object is its identity together with its behaviour. A zero-argument function reads and
  changes the state \<open>'w\<close> of its surroundings and returns a value; it is modelled as
  returning normally (it neither throws nor runs forever), and it does not touch the
  class's private counter. A setter takes the assigned value.
\<close>

datatype 'w jsfun = JsFun (fun_id: nat) (fun_call: "'w \<Rightarrow> jsval \<times> 'w")

datatype 'w jssetter = JsSetter (setter_id: nat) (setter_call: "jsval \<Rightarrow> 'w \<Rightarrow> 'w")

datatype 'w property =
    DataP (p_data: jsval) (p_writable: bool) (p_enumerable: bool) (p_configurable: bool)
  | AccessorP (p_get: "'w jsfun option") (p_set: "'w jssetter option")
      (p_enumerable: bool) (p_configurable: bool)

text \<open>
  A property descriptor as \<^verbatim>\<open>Object.defineProperty\<close> receives it: every field may be
  absent. A present \<open>get\<close> or \<open>set\<close> field holds a function or \<^verbatim>\<open>undefined\<close>.
\<close>

record 'w descriptor =
  d_value :: "jsval option"
  d_writable :: "bool option"
  d_get :: "'w jsfun option option"
  d_set :: "'w jssetter option option"
  d_enumerable :: "bool option"
  d_configurable :: "bool option"

definition no_fields :: "'w descriptor" where
  "no_fields = \<lparr>d_value = None, d_writable = None, d_get = None, d_set = None,
                 d_enumerable = None, d_configurable = None\<rparr>"

text \<open>An object: its own properties in the order of their creation, and [[Extensible]].\<close>

record 'w obj =
  props :: "(string \<times> 'w property) list"
  extensible :: bool

definition empty_object :: "'w obj" where
  "empty_object = \<lparr>props = [], extensible = True\<rparr>"

text \<open>
  An array index is the canonical decimal string of an integer in \<open>0 .. 2\<^sup>3\<^sup>2 - 2\<close>.
  [[OwnPropertyKeys]] of an ordinary object lists the array indices in ascending numeric
  order, then the other string keys in the order of their creation.
\<close>

definition dec_val :: "string \<Rightarrow> int" where
  "dec_val s = foldl (\<lambda>a c. 10 * a + (of_char c - 48)) 0 s"

definition array_index :: "string \<Rightarrow> int option" where
  "array_index s =
     (if s \<noteq> [] \<and> list_all (\<lambda>c. c \<in> set ''0123456789'') s
         \<and> (s = ''0'' \<or> hd s \<noteq> CHR ''0'') \<and> dec_val s < 4294967295
      then Some (dec_val s) else None)"

definition own_property_keys :: "(string \<times> 'a) list \<Rightarrow> string list" where
  "own_property_keys ps =
     (let ks = map fst ps in
      map snd (sort_key fst (List.map_filter (\<lambda>k. map_option (\<lambda>i. (i, k)) (array_index k)) ks))
      @ filter (\<lambda>k. array_index k = None) ks)"

text \<open>\<^verbatim>\<open>Object.keys(O)\<close>: the own keys whose property is enumerable.\<close>

definition Object_keys :: "'w obj \<Rightarrow> string list" where
  "Object_keys ob =
     filter (\<lambda>k. case map_of (props ob) k of Some p \<Rightarrow> p_enumerable p | None \<Rightarrow> False)
       (own_property_keys (props ob))"

text \<open>
  \<^verbatim>\<open>O[k]\<close>: a data property gives its value, an accessor property calls its getter. The
  class reads with \<^verbatim>\<open>this[key]\<close> own keys only; for a key the object does not own the
  model answers \<^verbatim>\<open>undefined\<close>. (The prototype is modelled where the class looks a method
  up, in \<open>call_method\<close> below.)
\<close>

definition Get :: "'w obj \<Rightarrow> string \<Rightarrow> 'w \<Rightarrow> jsval \<times> 'w" where
  "Get ob k w =
     (case map_of (props ob) k of
        None \<Rightarrow> (JUndefined, w)
      | Some (DataP v _ _ _) \<Rightarrow> (v, w)
      | Some (AccessorP g _ _ _) \<Rightarrow> (case g of None \<Rightarrow> (JUndefined, w) | Some f \<Rightarrow> fun_call f w))"

text \<open>ValidateAndApplyPropertyDescriptor of ECMA-262, in its three parts.\<close>

definition is_accessor_descriptor :: "'w descriptor \<Rightarrow> bool" where
  "is_accessor_descriptor d = (d_get d \<noteq> None \<or> d_set d \<noteq> None)"

definition is_data_descriptor :: "'w descriptor \<Rightarrow> bool" where
  "is_data_descriptor d = (d_value d \<noteq> None \<or> d_writable d \<noteq> None)"

text \<open>SameValue on a getter or a setter: the same function object, or both \<^verbatim>\<open>undefined\<close>.\<close>

definition same_fun :: "'w jsfun option \<Rightarrow> 'w jsfun option \<Rightarrow> bool" where
  "same_fun f g = (f = g)"

definition same_setter :: "'w jssetter option \<Rightarrow> 'w jssetter option \<Rightarrow> bool" where
  "same_setter f g = (f = g)"

text \<open>A property that does not exist yet: absent fields take their defaults.\<close>

definition new_property :: "'w descriptor \<Rightarrow> 'w property" where
  "new_property d =
     (if is_accessor_descriptor d
      then AccessorP (case d_get d of None \<Rightarrow> None | Some g \<Rightarrow> g)
             (case d_set d of None \<Rightarrow> None | Some s \<Rightarrow> s)
             (d_enumerable d = Some True) (d_configurable d = Some True)
      else DataP (case d_value d of None \<Rightarrow> JUndefined | Some v \<Rightarrow> v)
             (d_writable d = Some True)
             (d_enumerable d = Some True) (d_configurable d = Some True))"

definition is_accessor_property :: "'w property \<Rightarrow> bool" where
  "is_accessor_property p = (case p of AccessorP _ _ _ _ \<Rightarrow> True | DataP _ _ _ _ \<Rightarrow> False)"

text \<open>The changes a property that is not configurable refuses.\<close>

definition admissible :: "'w property \<Rightarrow> 'w descriptor \<Rightarrow> bool" where
  "admissible cur d =
     (p_configurable cur \<or>
      (d_configurable d \<noteq> Some True
       \<and> (case d_enumerable d of None \<Rightarrow> True | Some b \<Rightarrow> b = p_enumerable cur)
       \<and> ((\<not> is_accessor_descriptor d \<and> \<not> is_data_descriptor d)
            \<or> is_accessor_descriptor d = is_accessor_property cur)
       \<and> (case cur of
            AccessorP g s _ _ \<Rightarrow>
              (case d_get d of None \<Rightarrow> True | Some g' \<Rightarrow> same_fun g' g)
              \<and> (case d_set d of None \<Rightarrow> True | Some s' \<Rightarrow> same_setter s' s)
          | DataP v wr _ _ \<Rightarrow>
              wr \<or> (d_writable d \<noteq> Some True
                    \<and> (case d_value d of None \<Rightarrow> True | Some v' \<Rightarrow> same_value v' v)))))"

text \<open>An accepted descriptor overwrites the attributes it names.\<close>

definition apply_descriptor :: "'w property \<Rightarrow> 'w descriptor \<Rightarrow> 'w property" where
  "apply_descriptor cur d =
     (let en = (case d_enumerable d of None \<Rightarrow> p_enumerable cur | Some b \<Rightarrow> b);
          cf = (case d_configurable d of None \<Rightarrow> p_configurable cur | Some b \<Rightarrow> b)
      in case cur of
           DataP v wr _ _ \<Rightarrow>
             if is_accessor_descriptor d
             then AccessorP (case d_get d of None \<Rightarrow> None | Some g \<Rightarrow> g)
                    (case d_set d of None \<Rightarrow> None | Some s \<Rightarrow> s) en cf
             else DataP (case d_value d of None \<Rightarrow> v | Some v' \<Rightarrow> v')
                    (case d_writable d of None \<Rightarrow> wr | Some b \<Rightarrow> b) en cf
         | AccessorP g s _ _ \<Rightarrow>
             if is_data_descriptor d
             then DataP (case d_value d of None \<Rightarrow> JUndefined | Some v \<Rightarrow> v)
                    (d_writable d = Some True) en cf
             else AccessorP (case d_get d of None \<Rightarrow> g | Some g' \<Rightarrow> g')
                    (case d_set d of None \<Rightarrow> s | Some s' \<Rightarrow> s') en cf)"

fun update_property :: "string \<Rightarrow> 'a \<Rightarrow> (string \<times> 'a) list \<Rightarrow> (string \<times> 'a) list" where
  "update_property k p [] = []"
| "update_property k p ((k', p') # ps) =
     (if k' = k then (k, p) # ps else (k', p') # update_property k p ps)"

text \<open>[[DefineOwnProperty]]: \<open>None\<close> is the answer \<^verbatim>\<open>false\<close>, the object left as it was.\<close>

definition define_own_property :: "'w obj \<Rightarrow> string \<Rightarrow> 'w descriptor \<Rightarrow> 'w obj option" where
  "define_own_property ob k d =
     (case map_of (props ob) k of
        None \<Rightarrow>
          if extensible ob then Some (ob\<lparr>props := props ob @ [(k, new_property d)]\<rparr>) else None
      | Some cur \<Rightarrow>
          if admissible cur d
          then Some (ob\<lparr>props := update_property k (apply_descriptor cur d) (props ob)\<rparr>)
          else None)"

datatype js_error = TypeError

text \<open>
  \<^verbatim>\<open>Object.defineProperty(O, k, d)\<close> throws a TypeError for a descriptor that is both a
  data and an accessor descriptor, and when [[DefineOwnProperty]] answers \<^verbatim>\<open>false\<close>.
\<close>

definition Object_defineProperty :: "'w obj \<Rightarrow> string \<Rightarrow> 'w descriptor \<Rightarrow> js_error + 'w obj" where
  "Object_defineProperty ob k d =
     (if is_accessor_descriptor d \<and> is_data_descriptor d then Inl TypeError
      else case define_own_property ob k d of None \<Rightarrow> Inl TypeError | Some ob' \<Rightarrow> Inr ob')"

text \<open>\<^verbatim>\<open>Object.freeze(O)\<close>: no extension, no property configurable, no data property writable.\<close>

definition freeze_property :: "'w property \<Rightarrow> 'w property" where
  "freeze_property p =
     (case p of DataP v _ e _ \<Rightarrow> DataP v False e False
              | AccessorP g s e _ \<Rightarrow> AccessorP g s e False)"

definition Object_freeze :: "'w obj \<Rightarrow> 'w obj" where
  "Object_freeze ob = \<lparr>props = map (\<lambda>(k, p). (k, freeze_property p)) (props ob), extensible = False\<rparr>"

text \<open>
  The assignment \<^verbatim>\<open>O[k] = v\<close> ([[Set]] with the object as receiver). No object on the
  prototype chain of an enumeration has a setter or a read-only property under a string
  key other than \<^verbatim>\<open>__proto__\<close>, so a key the object does not own is created on it. The
  answer \<^verbatim>\<open>false\<close> throws a TypeError in strict code and is dropped in sloppy code.
\<close>

definition ordinary_set :: "'w obj \<Rightarrow> string \<Rightarrow> jsval \<Rightarrow> 'w \<Rightarrow> bool \<times> 'w obj \<times> 'w" where
  "ordinary_set ob k v w =
     (case map_of (props ob) k of
        None \<Rightarrow>
          (case define_own_property ob k
                  (no_fields\<lparr>d_value := Some v, d_writable := Some True,
                     d_enumerable := Some True, d_configurable := Some True\<rparr>) of
             None \<Rightarrow> (False, ob, w) | Some ob' \<Rightarrow> (True, ob', w))
      | Some (DataP _ wr _ _) \<Rightarrow>
          if \<not> wr then (False, ob, w)
          else (case define_own_property ob k (no_fields\<lparr>d_value := Some v\<rparr>) of
                  None \<Rightarrow> (False, ob, w) | Some ob' \<Rightarrow> (True, ob', w))
      | Some (AccessorP _ s _ _) \<Rightarrow>
          (case s of None \<Rightarrow> (False, ob, w) | Some f \<Rightarrow> (True, ob, setter_call f v w)))"

definition assign :: "bool \<Rightarrow> 'w obj \<Rightarrow> string \<Rightarrow> jsval \<Rightarrow> 'w \<Rightarrow> js_error option \<times> 'w obj \<times> 'w" where
  "assign strict ob k v w =
     (case ordinary_set ob k v w of
        (ok, ob', w') \<Rightarrow> (if \<not> ok \<and> strict then Some TypeError else None, ob', w'))"

text \<open>\<^verbatim>\<open>delete O[k]\<close>: only a configurable property goes.\<close>

definition delete_property :: "bool \<Rightarrow> 'w obj \<Rightarrow> string \<Rightarrow> js_error option \<times> 'w obj" where
  "delete_property strict ob k =
     (case map_of (props ob) k of
        None \<Rightarrow> (None, ob)
      | Some p \<Rightarrow>
          if p_configurable p then (None, ob\<lparr>props := filter (\<lambda>(k', _). k' \<noteq> k) (props ob)\<rparr>)
          else (if strict then Some TypeError else None, ob))"


section \<open>The Enum class\<close>

text \<open>
  The static property \<^verbatim>\<open>Enum.__iota\<close> is \<^verbatim>\<open>undefined\<close> (\<open>None\<close>) until the getter first
  runs, and a number afterwards. The number is modelled without the rounding of a
  double, which is exact below \<open>2\<^sup>5\<^sup>3\<close>.

  \<^verbatim>\<open>static get _iota() { if (!Enum.__iota) { Enum.__iota = 0; } return Enum.__iota++; }\<close>
\<close>

definition Enum_iota :: "nat option \<Rightarrow> nat \<times> nat option" where
  "Enum_iota c =
     (let n = (case c of None \<Rightarrow> 0 | Some m \<Rightarrow> if m = 0 then 0 else m)
      in (n, Some (n + 1)))"

text \<open>
  The first argument of the constructor: an array of strings, or an object, given by its
  own enumerable properties in the order of their creation. A property of that object
  holds a function (\<^verbatim>\<open>typeof enums[key] === 'function'\<close>) or another value.
\<close>

datatype 'w member_init = Plain jsval | Function "'w jsfun"

datatype 'w enums = Array "string list" | Mapping "(string \<times> 'w member_init) list"

text \<open>
  The three loops of the constructor. Each runs on \<open>this\<close> and stops at the first
  exception, which it returns with \<open>this\<close> as the exception left it. \<open>constantCase\<close> is
  the function of that name of the package \<^verbatim>\<open>case\<close>, a parameter of the model.

  \<^verbatim>\<open>for (const row of enums) { const key = constantCase(row);
    Object.defineProperty(this, key, { enumerable: true, value: row }); }\<close>
\<close>

fun auto_loop :: "(string \<Rightarrow> string) \<Rightarrow> string list \<Rightarrow> 'w obj \<Rightarrow> js_error option \<times> 'w obj" where
  "auto_loop constantCase [] this = (None, this)"
| "auto_loop constantCase (row # rows) this =
     (let key = constantCase row in
      case Object_defineProperty this key
             (no_fields\<lparr>d_enumerable := Some True, d_value := Some (JStr row)\<rparr>) of
        Inl e \<Rightarrow> (Some e, this)
      | Inr this' \<Rightarrow> auto_loop constantCase rows this')"

text \<open>
  \<^verbatim>\<open>for (const key of enums) {
    Object.defineProperty(this, key, { enumerable: true, value: Enum._iota }); }\<close>

  The descriptor is built, and the counter read, before the property is defined.
\<close>

fun iota_loop :: "string list \<Rightarrow> 'w obj \<Rightarrow> nat option \<Rightarrow> js_error option \<times> 'w obj \<times> nat option" where
  "iota_loop [] this c = (None, this, c)"
| "iota_loop (key # keys) this c =
     (case Enum_iota c of
        (n, c') \<Rightarrow>
          (case Object_defineProperty this key
                  (no_fields\<lparr>d_enumerable := Some True, d_value := Some (JNum (int n))\<rparr>) of
             Inl e \<Rightarrow> (Some e, this, c')
           | Inr this' \<Rightarrow> iota_loop keys this' c'))"

text \<open>
  \<^verbatim>\<open>for (const key of Object.keys(enums)) { const init = { enumerable: true };
    if (typeof enums[key] === 'function') { init.get = enums[key]; }
    else { init.value = enums[key]; }
    Object.defineProperty(this, key, init); }\<close>
\<close>

fun mapping_loop ::
  "(string \<times> 'w member_init) list \<Rightarrow> string list \<Rightarrow> 'w obj \<Rightarrow> js_error option \<times> 'w obj" where
  "mapping_loop enums [] this = (None, this)"
| "mapping_loop enums (key # keys) this =
     (let init = no_fields\<lparr>d_enumerable := Some True\<rparr>;
          init = (case map_of enums key of
                    Some (Function f) \<Rightarrow> init\<lparr>d_get := Some (Some f)\<rparr>
                  | Some (Plain v) \<Rightarrow> init\<lparr>d_value := Some v\<rparr>
                  | None \<Rightarrow> init\<lparr>d_value := Some JUndefined\<rparr>)
      in case Object_defineProperty this key init of
           Inl e \<Rightarrow> (Some e, this)
         | Inr this' \<Rightarrow> mapping_loop enums keys this')"

text \<open>
  The constructor, run on a fresh object, with the counter it finds. It returns the
  exception thrown (if any), \<open>this\<close> as it stands then, and the counter. The message of
  the TypeError, which names the type of the argument, is not modelled.
\<close>

definition Enum_constructor ::
  "(string \<Rightarrow> string) \<Rightarrow> 'w enums \<Rightarrow> bool \<Rightarrow> nat option \<Rightarrow> js_error option \<times> 'w obj \<times> nat option" where
  "Enum_constructor constantCase enums auto c =
     (let this = empty_object;
          isArray = (case enums of Array _ \<Rightarrow> True | Mapping _ \<Rightarrow> False)
      in if auto \<and> \<not> isArray then (Some TypeError, this, c)
         else case (case enums of
                      Array rows \<Rightarrow>
                        if auto
                        then (case auto_loop constantCase rows this of (e, this') \<Rightarrow> (e, this', c))
                        else iota_loop rows this c
                    | Mapping m \<Rightarrow>
                        (case mapping_loop m (own_property_keys m) this of
                           (e, this') \<Rightarrow> (e, this', c))) of
                (Some e, this', c') \<Rightarrow> (Some e, this', c')
              | (None, this', c') \<Rightarrow> (None, Object_freeze this', c'))"

text \<open>\<^verbatim>\<open>new Enum(enums, auto)\<close>: the instance, or the exception; and the counter.\<close>

definition Enum_new ::
  "(string \<Rightarrow> string) \<Rightarrow> 'w enums \<Rightarrow> bool \<Rightarrow> nat option \<Rightarrow> (js_error + 'w obj) \<times> nat option" where
  "Enum_new constantCase enums auto c =
     (case Enum_constructor constantCase enums auto c of
        (Some e, this, c') \<Rightarrow> (Inl e, c')
      | (None, this, c') \<Rightarrow> (Inr this, c'))"

text \<open>
  A method call \<^verbatim>\<open>this.name(...)\<close>. The property \<open>name\<close> is looked up on the instance
  before the prototype, so a key of the enumeration hides the method of the class that
  has its name. Then the call reads the key (a getter runs) and calls what it read, which
  is not a function: a TypeError. When the instance owns no such key, the method of the
  class runs on it.
\<close>

definition has_own :: "'w obj \<Rightarrow> string \<Rightarrow> bool" where
  "has_own ob k = (map_of (props ob) k \<noteq> None)"

definition call_method ::
  "'w obj \<Rightarrow> string \<Rightarrow> ('w obj \<Rightarrow> 'w \<Rightarrow> (js_error + 'a) \<times> 'w) \<Rightarrow> 'w \<Rightarrow> (js_error + 'a) \<times> 'w" where
  "call_method this name body w =
     (if has_own this name
      then (case Get this name w of (f, w') \<Rightarrow> (Inl TypeError, w'))
      else body this w)"

text \<open>
  The methods of the class, each as its body run on \<open>this\<close>, and as the call
  \<^verbatim>\<open>this.name(...)\<close> of it.

  \<^verbatim>\<open>keys() { return Object.keys(this); }\<close>
\<close>

definition Enum_keys :: "'w obj \<Rightarrow> string list" where
  "Enum_keys this = Object_keys this"

definition call_keys :: "'w obj \<Rightarrow> 'w \<Rightarrow> (js_error + string list) \<times> 'w" where
  "call_keys this w = call_method this ''keys'' (\<lambda>this w. (Inr (Enum_keys this), w)) w"

text \<open>\<^verbatim>\<open>keys.map(key => this[key])\<close>: the reads happen in order, each in the state the
  one before left.\<close>

fun map_Get :: "'w obj \<Rightarrow> string list \<Rightarrow> 'w \<Rightarrow> jsval list \<times> 'w" where
  "map_Get this [] w = ([], w)"
| "map_Get this (key # keys) w =
     (case Get this key w of
        (v, w1) \<Rightarrow> (case map_Get this keys w1 of (vs, w2) \<Rightarrow> (v # vs, w2)))"

text \<open>\<^verbatim>\<open>values() { return this.keys().map(key => this[key])
    .filter((v, i, s) => s.indexOf(v) === i); }\<close>\<close>

definition Enum_values :: "'w obj \<Rightarrow> 'w \<Rightarrow> (js_error + jsval list) \<times> 'w" where
  "Enum_values this w =
     (case call_keys this w of
        (Inl e, w') \<Rightarrow> (Inl e, w')
      | (Inr keys, w') \<Rightarrow>
          (case map_Get this keys w' of (s, w'') \<Rightarrow> (Inr (filter_first_index s), w'')))"

definition call_values :: "'w obj \<Rightarrow> 'w \<Rightarrow> (js_error + jsval list) \<times> 'w" where
  "call_values this w = call_method this ''values'' Enum_values w"

text \<open>\<^verbatim>\<open>hasKey(name) { return this.keys().includes(name); }\<close>\<close>

definition Enum_hasKey :: "'w obj \<Rightarrow> jsval \<Rightarrow> 'w \<Rightarrow> (js_error + bool) \<times> 'w" where
  "Enum_hasKey this name w =
     (case call_keys this w of
        (Inl e, w') \<Rightarrow> (Inl e, w')
      | (Inr keys, w') \<Rightarrow> (Inr (Array_includes (map JStr keys) name), w'))"






section \<open>What the claims speak of\<close>

text \<open>
  The two kinds of member the constructor defines: a fixed member is a data property
  that is enumerable, not writable and not configurable; a computed member is an accessor
  property with a getter and no setter, enumerable and not configurable.
\<close>

definition fixed_member :: "jsval \<Rightarrow> 'w property" where
  "fixed_member v = DataP v False True False"

definition computed_member :: "'w jsfun \<Rightarrow> 'w property" where
  "computed_member f = AccessorP (Some f) None True False"

fun is_member :: "'w property \<Rightarrow> bool" where
  "is_member (DataP v wr en cf) = (\<not> wr \<and> en \<and> \<not> cf)"
| "is_member (AccessorP g s en cf) =
     (case g of None \<Rightarrow> False | Some _ \<Rightarrow> (case s of None \<Rightarrow> en \<and> \<not> cf | Some _ \<Rightarrow> False))"

text \<open>The member a property of the mapping turns into.\<close>

fun member_of :: "'w member_init option \<Rightarrow> 'w property" where
  "member_of (Some (Function f)) = computed_member f"
| "member_of (Some (Plain v)) = fixed_member v"
| "member_of None = fixed_member JUndefined"

text \<open>The number the counter holds: \<^verbatim>\<open>undefined\<close> counts as 0, as the getter reads it.\<close>

fun counter_value :: "nat option \<Rightarrow> nat" where
  "counter_value None = 0"
| "counter_value (Some n) = n"

text \<open>Consecutive numbers from \<open>n\<close> on, one for each key, as fixed members.\<close>

fun iota_members :: "nat \<Rightarrow> string list \<Rightarrow> (string \<times> 'w property) list" where
  "iota_members n [] = []"
| "iota_members n (k # ks) = (k, fixed_member (JNum (int n))) # iota_members (Suc n) ks"

text \<open>A sequence with every element kept where it first occurs and dropped afterwards.\<close>

fun first_occurrences :: "'a list \<Rightarrow> 'a list" where
  "first_occurrences [] = []"
| "first_occurrences (x # xs) = x # first_occurrences (filter (\<lambda>y. y \<noteq> x) xs)"

text \<open>
  The order of declaration: the keys in the order in which the argument of the
  constructor holds them, each listed where it first stands. For an array these are its
  elements (normalized in auto mode), for a mapping its keys in the order of their
  creation, which is the order an object literal writes them in.
\<close>

fun declared_keys :: "(string \<Rightarrow> string) \<Rightarrow> 'w enums \<Rightarrow> bool \<Rightarrow> string list" where
  "declared_keys constantCase (Array rows) auto =
     first_occurrences (if auto then map constantCase rows else rows)"
| "declared_keys constantCase (Mapping m) auto = first_occurrences (map fst m)"

text \<open>
  A process, as far as the counter goes: constructor calls one after the other, each
  starting with the counter the one before left. (The methods do not touch the counter.)
\<close>

fun run_constructions ::
  "(string \<Rightarrow> string) \<Rightarrow> ('w enums \<times> bool) list \<Rightarrow> nat option
     \<Rightarrow> (js_error + 'w obj) list \<times> nat option" where
  "run_constructions constantCase [] c = ([], c)"
| "run_constructions constantCase ((enums, auto) # calls) c =
     (case Enum_new constantCase enums auto c of
        (r, c') \<Rightarrow>
          (case run_constructions constantCase calls c' of (rs, c'') \<Rightarrow> (r # rs, c'')))"

text \<open>
  What a program can try on an instance to change it: define a property, assign to one,
  delete one (the last two in strict or in sloppy code). \<open>attempt\<close> is the object and the
  state after the operation, whether it threw or not.
\<close>

datatype 'w mutation =
    DefineProperty string "'w descriptor"
  | Assign bool string jsval
  | Delete bool string

fun attempt :: "'w mutation \<Rightarrow> 'w obj \<times> 'w \<Rightarrow> 'w obj \<times> 'w" where
  "attempt (DefineProperty k d) (ob, w) =
     (case Object_defineProperty ob k d of Inl _ \<Rightarrow> (ob, w) | Inr ob' \<Rightarrow> (ob', w))"
| "attempt (Assign strict k v) (ob, w) =
     (case assign strict ob k v w of (_, ob', w') \<Rightarrow> (ob', w'))"
| "attempt (Delete strict k) (ob, w) =
     (case delete_property strict ob k of (_, ob') \<Rightarrow> (ob', w))"

text \<open>
  Inputs for the examples. \<open>upper_ascii\<close> stands in for \<open>constantCase\<close>: it agrees with
  it on a word of ASCII letters, which it writes in upper case. \<open>tick\<close> is a function
  that returns the number of times it was called before; the state is that number.
\<close>

definition upper_ascii :: "string \<Rightarrow> string" where
  "upper_ascii s =
     map (\<lambda>c. case map_of (zip ''abcdefghijklmnopqrstuvwxyz'' ''ABCDEFGHIJKLMNOPQRSTUVWXYZ'') c of
                 Some u \<Rightarrow> u | None \<Rightarrow> c) s"


text \<open>\<^verbatim>\<open>() => NaN\<close>\<close>

definition always_NaN :: "'w jsfun" where
  "always_NaN = JsFun 2 (\<lambda>w. (JNaN, w))"









text \<open>
  The two descriptors the constructor writes, \<^verbatim>\<open>{ enumerable: true, value: v }\<close> and
  \<^verbatim>\<open>{ enumerable: true, get: f }\<close>, and the properties the auto loop and the mapping loop
  leave for a list of rows and of keys.
\<close>

abbreviation value_descriptor :: "jsval \<Rightarrow> 'w descriptor" where
  "value_descriptor v \<equiv> no_fields\<lparr>d_enumerable := Some True, d_value := Some v\<rparr>"

abbreviation getter_descriptor :: "'w jsfun \<Rightarrow> 'w descriptor" where
  "getter_descriptor f \<equiv> no_fields\<lparr>d_enumerable := Some True, d_get := Some (Some f)\<rparr>"

definition auto_members :: "(string \<Rightarrow> string) \<Rightarrow> string list \<Rightarrow> (string \<times> 'w property) list" where
  "auto_members constantCase rows = map (\<lambda>row. (constantCase row, fixed_member (JStr row))) rows"

definition mapping_members ::
  "(string \<times> 'w member_init) list \<Rightarrow> string list \<Rightarrow> (string \<times> 'w property) list" where
  "mapping_members m ks = map (\<lambda>k. (k, member_of (map_of m k))) ks"

section \<open>Properties of the diagnostic message\<close>

lemma hex_digit_table:
  "list_all (\<lambda>n. hex_digit_val (hex_digit n) = n \<and> hex_digit n \<in> set ''0123456789abcdef'') [0..<16]"
  by code_simp

lemma hex_digit_val_digit: "n < 16 \<Longrightarrow> hex_digit_val (hex_digit n) = n"
  using hex_digit_table by (simp add: list_all_iff)

lemma hex_digit_in: "n < 16 \<Longrightarrow> hex_digit n \<in> set ''0123456789abcdef''"
  using hex_digit_table unfolding list_all_iff by auto

lemma hex_val_snoc: "hex_val (s @ [c]) = 16 * hex_val s + hex_digit_val c"
  by (simp add: hex_val_def)

lemma hex_val_to_hex: "hex_val (to_hex n) = n"
proof (induction n rule: to_hex.induct)
  case (1 n)
  show ?case
  proof (cases "n < 16")
    case True
    then show ?thesis
      by (simp add: to_hex.simps[of n] hex_val_def hex_digit_val_digit)
  next
    case False
    with 1 show ?thesis
      by (simp add: to_hex.simps[of n] hex_val_snoc hex_digit_val_digit)
  qed
qed

lemma set_to_hex: "set (to_hex n) \<subseteq> set ''0123456789abcdef''"
proof (induction n rule: to_hex.induct)
  case (1 n)
  show ?case
  proof (cases "n < 16")
    case True
    then show ?thesis
      using hex_digit_in[of n] by (simp add: to_hex.simps[of n])
  next
    case False
    with 1 show ?thesis
      using hex_digit_in[of "n mod 16"] by (simp add: to_hex.simps[of n])
  qed
qed

lemma to_hex_not_Nil: "to_hex n \<noteq> []"
  by (simp add: to_hex.simps[of n])

lemma length_to_hex_1: "length (to_hex n) = 1 \<longleftrightarrow> n < 16"
proof (cases "n < 16")
  case True
  then show ?thesis by (simp add: to_hex.simps[of n])
next
  case False
  then show ?thesis using to_hex_not_Nil[of "n div 16"] by (simp add: to_hex.simps[of n])
qed

lemma length_to_hex_2: "16 \<le> n \<Longrightarrow> length (to_hex n) = 2 \<longleftrightarrow> n < 256"
proof -
  assume "16 \<le> n"
  then have "length (to_hex n) = Suc (length (to_hex (n div 16)))"
    by (simp add: to_hex.simps[of n])
  moreover have "length (to_hex (n div 16)) = 1 \<longleftrightarrow> n div 16 < 16"
    by (rule length_to_hex_1)
  moreover have "n div 16 < 16 \<longleftrightarrow> n < 256"
    by auto
  ultimately show ?thesis by simp
qed

lemma d2h_nat: "d2h (int n) = (if n < 16 then CHR ''0'' # to_hex n else to_hex n)"
  using length_to_hex_1[of n] by (simp add: d2h_def number_toString16_def Let_def)

lemma d2h_padded: "d2h (int n) = replicate (2 - length (to_hex n)) (CHR ''0'') @ to_hex n"
proof (cases "n < 16")
  case True
  then have "length (to_hex n) = 1" using length_to_hex_1[of n] by blast
  with True show ?thesis by (simp add: d2h_nat)
next
  case False
  have "0 < length (to_hex n)" by (simp add: to_hex_not_Nil)
  moreover have "length (to_hex n) \<noteq> 1" using False length_to_hex_1[of n] by blast
  ultimately have "2 - length (to_hex n) = 0" by linarith
  with False show ?thesis by (simp add: d2h_nat)
qed

lemma length_d2h_ge_2: "2 \<le> length (d2h (int n))"
proof (cases "n < 16")
  case True
  then have "length (to_hex n) = 1" using length_to_hex_1[of n] by blast
  with True show ?thesis by (simp add: d2h_nat)
next
  case False
  have "0 < length (to_hex n)" by (simp add: to_hex_not_Nil)
  moreover have "length (to_hex n) \<noteq> 1" using False length_to_hex_1[of n] by blast
  ultimately have "2 \<le> length (to_hex n)" by linarith
  with False show ?thesis by (simp add: d2h_nat)
qed

lemma length_d2h_2: "length (d2h (int n)) = 2 \<longleftrightarrow> n < 256"
proof (cases "n < 16")
  case True
  then show ?thesis using length_to_hex_1[of n] by (simp add: d2h_nat)
next
  case False
  then show ?thesis using length_to_hex_2[of n] by (simp add: d2h_nat)
qed

lemma hex_val_d2h: "hex_val (d2h (int n)) = n"
proof -
  have "hex_val (CHR ''0'' # s) = hex_val s" for s
    by (simp add: hex_val_def hex_digit_val_def)
  then show ?thesis by (simp add: d2h_nat hex_val_to_hex)
qed

lemma set_d2h: "set (d2h (int n)) \<subseteq> set ''0123456789abcdef''"
  using set_to_hex[of n] by (simp add: d2h_nat)

lemma message_numeric:
  "InvalidCommandError v ty (NumT d) ctx =
     ''Can't find '' @ ty @ '' with the value '' @ d2h d
       @ (if ctx = [] then [] else '' ('' @ join '', '' ctx @ '')'')"
  by (simp add: InvalidCommandError_def)

lemma message_other:
  "(\<forall>d. t \<noteq> NumT d) \<Longrightarrow>
   InvalidCommandError v ty t ctx =
     ''Can't find '' @ ty @ '' called \"'' @ ToString t @ ''\"''
       @ (if ctx = [] then [] else '' ('' @ join '', '' ctx @ '')'')"
  by (cases t) (simp_all add: InvalidCommandError_def)

lemma d2h_15: "d2h 15 = ''0f''"
  using d2h_nat[of 15] by (simp add: to_hex.simps hex_digit_def)

lemma d2h_256: "d2h 256 = ''100''"
  using d2h_nat[of 256] by (simp add: to_hex.simps hex_digit_def)

text \<open>
  Claim C4, as stated, fails: a numeric target above 255 is rendered with more than two
  hexadecimal digits. \<^verbatim>\<open>new InvalidCommandError(x, 'command', 256)\<close> has the message
  \<^verbatim>\<open>Can't find command with the value 100\<close>.
\<close>

theorem InvalidCommandError_256_three_digits:
  "InvalidCommandError () ''command'' (NumT 256) [] = ''Can't find command with the value 100''
   \<and> d2h 256 = ''100'' \<and> length (d2h 256) \<noteq> 2"
  by (simp add: message_numeric d2h_256)

text \<open>
  Claim C4, amended. For every call \<^verbatim>\<open>new InvalidCommandError(value, type, target, context)\<close>:
  a target that is a number, a non-negative integer \<open>n\<close>, gives the message
  \<^verbatim>\<open>Can't find <type> with the value <hex>\<close>, where \<open><hex>\<close> is \<open>n\<close> in lowercase hexadecimal
  digits, padded on the left with zeros to two digits at least; it has exactly two digits
  if and only if \<open>n \<le> 255\<close>. Every other target gives \<^verbatim>\<open>Can't find <type> called "<target>"\<close>,
  the target as a string between the quotes: a string verbatim, \<^verbatim>\<open>undefined\<close>, \<^verbatim>\<open>null\<close> and a
  boolean by their names. \<^verbatim>\<open>" (" + context.join(", ") + ")"\<close> is appended if and only if
  the context is not empty. Target 15 with type \<^verbatim>\<open>command\<close> gives
  \<^verbatim>\<open>Can't find command with the value 0f\<close>, and target \<^verbatim>\<open>Foo\<close> with type \<^verbatim>\<open>class\<close> and context
  \<^verbatim>\<open>['bar']\<close> gives \<^verbatim>\<open>Can't find class called "Foo" (bar)\<close>.
\<close>

theorem InvalidCommandError_message:
  "InvalidCommandError v ty (NumT (int n)) ctx =
     ''Can't find '' @ ty @ '' with the value '' @ d2h (int n)
       @ (if ctx = [] then [] else '' ('' @ join '', '' ctx @ '')'')
   \<and> d2h (int n) = replicate (2 - length (to_hex n)) (CHR ''0'') @ to_hex n
   \<and> hex_val (d2h (int n)) = n
   \<and> set (d2h (int n)) \<subseteq> set ''0123456789abcdef''
   \<and> 2 \<le> length (d2h (int n))
   \<and> (length (d2h (int n)) = 2 \<longleftrightarrow> n \<le> 255)
   \<and> ((\<forall>d. t \<noteq> NumT d) \<longrightarrow>
        InvalidCommandError v ty t ctx =
          ''Can't find '' @ ty @ '' called \"'' @ ToString t @ ''\"''
            @ (if ctx = [] then [] else '' ('' @ join '', '' ctx @ '')''))
   \<and> ToString (StrT s) = s
   \<and> ToString UndefinedT = ''undefined'' \<and> ToString NullT = ''null''
   \<and> ToString (BoolT True) = ''true'' \<and> ToString (BoolT False) = ''false''
   \<and> InvalidCommandError v ''command'' (NumT 15) [] = ''Can't find command with the value 0f''
   \<and> InvalidCommandError v ''class'' (StrT ''Foo'') [''bar''] =
       ''Can't find class called \"Foo\" (bar)''"
proof -
  have len: "2 \<le> length (d2h (int n))"
    by (rule length_d2h_ge_2)
  have two: "length (d2h (int n)) = 2 \<longleftrightarrow> n \<le> 255"
    using length_d2h_2[of n] by auto
  have ex1: "InvalidCommandError v ''command'' (NumT 15) [] = ''Can't find command with the value 0f''"
    by (simp add: message_numeric d2h_15)
  have ex2: "InvalidCommandError v ''class'' (StrT ''Foo'') [''bar''] =
       ''Can't find class called \"Foo\" (bar)''"
    by (simp add: message_other)
  have other: "(\<forall>d. t \<noteq> NumT d) \<longrightarrow>
        InvalidCommandError v ty t ctx =
          ''Can't find '' @ ty @ '' called \"'' @ ToString t @ ''\"''
            @ (if ctx = [] then [] else '' ('' @ join '', '' ctx @ '')'')"
    using message_other[of t v ty ctx] by blast
  have str: "ToString (StrT s) = s \<and> ToString UndefinedT = ''undefined''
      \<and> ToString NullT = ''null''
      \<and> ToString (BoolT True) = ''true'' \<and> ToString (BoolT False) = ''false''"
    by simp
  show ?thesis
    using len two ex1 ex2 other str message_numeric[of v ty "int n" ctx]
      d2h_padded[of n] hex_val_d2h[of n] set_d2h[of n]
    by blast
qed

theorem InvalidCommandError_message_witness:
  "InvalidCommandError () ''command'' (NumT 171) [''a'', ''b''] =
     ''Can't find command with the value ab (a, b)''
   \<and> hex_val (d2h 171) = 171 \<and> length (d2h 171) = 2
   \<and> InvalidCommandError () ''class'' (StrT ''Foo'') [] = ''Can't find class called \"Foo\"''
   \<and> InvalidCommandError () ''class'' UndefinedT [''bar''] = ''Can't find class called \"undefined\" (bar)''
   \<and> InvalidCommandError () ''class'' (BoolT False) [] = ''Can't find class called \"false\"''"
proof -
  have "d2h 171 = ''ab''"
    using d2h_nat[of 171] by (simp add: to_hex.simps hex_digit_def)
  then show ?thesis
    using InvalidCommandError_message[of "()" "''command''" 171 "[''a'', ''b'']" "StrT ''Foo''"]
      InvalidCommandError_message[of "()" "''class''" 171 "[]" "StrT ''Foo''"]
      InvalidCommandError_message[of "()" "''class''" 171 "[''bar'']" UndefinedT]
      InvalidCommandError_message[of "()" "''class''" 171 "[]" "BoolT False"]
    by simp
qed

section \<open>Property definition and the loops of the constructor\<close>

lemma update_property_same: "map_of ps k = Some p \<Longrightarrow> update_property k p ps = ps"
  by (induction ps) (auto split: if_splits)

lemma define_value_fresh:
  "map_of (props this) k = None \<Longrightarrow> extensible this \<Longrightarrow>
   Object_defineProperty this k (value_descriptor v) = Inr (this\<lparr>props := props this @ [(k, fixed_member v)]\<rparr>)"
  by (simp add: Object_defineProperty_def define_own_property_def is_accessor_descriptor_def
      is_data_descriptor_def no_fields_def new_property_def fixed_member_def)

lemma define_value_again:
  "map_of (props this) k = Some (fixed_member v0) \<Longrightarrow>
   Object_defineProperty this k (value_descriptor v) = (if v0 = v then Inr this else Inl TypeError)"
  by (auto simp add: Object_defineProperty_def define_own_property_def is_accessor_descriptor_def
      is_data_descriptor_def no_fields_def admissible_def apply_descriptor_def fixed_member_def
      is_accessor_property_def same_value_def update_property_same)

lemma define_getter_fresh:
  "map_of (props this) k = None \<Longrightarrow> extensible this \<Longrightarrow>
   Object_defineProperty this k (getter_descriptor f) = Inr (this\<lparr>props := props this @ [(k, computed_member f)]\<rparr>)"
  by (simp add: Object_defineProperty_def define_own_property_def is_accessor_descriptor_def
      is_data_descriptor_def no_fields_def new_property_def computed_member_def)

lemma define_getter_again:
  "map_of (props this) k = Some (computed_member f) \<Longrightarrow>
   Object_defineProperty this k (getter_descriptor f) = Inr this"
  by (auto simp add: Object_defineProperty_def define_own_property_def is_accessor_descriptor_def
      is_data_descriptor_def no_fields_def admissible_def apply_descriptor_def computed_member_def
      is_accessor_property_def same_fun_def same_setter_def update_property_same)


lemma filter_neq_swap:
  "filter (\<lambda>y. y \<noteq> x) (filter P xs) = filter P (filter (\<lambda>y. y \<noteq> x) xs)"
  by (induction xs) auto

lemma first_occurrences_filter:
  "first_occurrences (filter P xs) = filter P (first_occurrences xs)"
proof (induction xs rule: first_occurrences.induct)
  case 1
  show ?case by simp
next
  case (2 x xs)
  have IH: "first_occurrences (filter P (filter (\<lambda>y. y \<noteq> x) xs)) =
            filter P (first_occurrences (filter (\<lambda>y. y \<noteq> x) xs))"
    by (rule 2)
  show ?case
  proof (cases "P x")
    case True
    have "first_occurrences (filter P (x # xs)) =
          x # first_occurrences (filter (\<lambda>y. y \<noteq> x) (filter P xs))"
      using True by simp
    also have "\<dots> = x # filter P (first_occurrences (filter (\<lambda>y. y \<noteq> x) xs))"
      by (simp only: filter_neq_swap IH)
    also have "\<dots> = filter P (first_occurrences (x # xs))"
      using True by simp
    finally show ?thesis .
  next
    case False
    have "filter (\<lambda>y. y \<noteq> x) (filter P xs) = filter P xs"
      using False by (induction xs) auto
    then have "filter P (filter (\<lambda>y. y \<noteq> x) xs) = filter P xs"
      by (simp only: filter_neq_swap)
    then have "first_occurrences (filter P xs) =
               filter P (first_occurrences (filter (\<lambda>y. y \<noteq> x) xs))"
      using IH by simp
    then show ?thesis using False by simp
  qed
qed

lemma set_first_occurrences: "set (first_occurrences xs) = set xs"
  by (induction xs rule: first_occurrences.induct) auto

lemma distinct_first_occurrences: "distinct (first_occurrences xs)"
  by (induction xs rule: first_occurrences.induct) (auto simp: set_first_occurrences)

lemma first_occurrences_distinct: "distinct xs \<Longrightarrow> first_occurrences xs = xs"
proof (induction xs)
  case Nil
  show ?case by simp
next
  case (Cons a xs)
  then have "filter (\<lambda>y. y \<noteq> a) xs = xs"
    by (auto simp: filter_id_conv)
  with Cons show ?case by simp
qed

lemma Enum_iota_eq: "Enum_iota c = (counter_value c, Some (Suc (counter_value c)))"
  by (cases c) (auto simp: Enum_iota_def)

lemma map_fst_iota_members: "map fst (iota_members n ks) = ks"
  by (induction ks arbitrary: n) auto

lemma map_of_iota_members_nth:
  "distinct ks \<Longrightarrow> i < length ks \<Longrightarrow>
   map_of (iota_members n ks) (ks ! i) = Some (fixed_member (JNum (int (n + i))))"
proof (induction ks arbitrary: n i)
  case Nil
  then show ?case by simp
next
  case (Cons a ks)
  show ?case
  proof (cases i)
    case 0
    then show ?thesis by simp
  next
    case (Suc j)
    with Cons.prems have "ks ! j \<noteq> a" "distinct ks" "j < length ks" by auto
    then show ?thesis using Cons.IH[of j "Suc n"] Suc by simp
  qed
qed

lemma iota_loop_ok:
  "extensible this \<Longrightarrow> distinct ks \<Longrightarrow> set ks \<inter> fst ` set (props this) = {} \<Longrightarrow>
   iota_loop ks this c =
     (None, this\<lparr>props := props this @ iota_members (counter_value c) ks\<rparr>,
      if ks = [] then c else Some (counter_value c + length ks))"
proof (induction ks arbitrary: this c)
  case Nil
  then show ?case by simp
next
  case (Cons key ks)
  let ?n = "counter_value c"
  let ?self' = "this\<lparr>props := props this @ [(key, fixed_member (JNum (int ?n)))]\<rparr>"
  from Cons.prems have fresh: "map_of (props this) key = None"
    by (auto simp: map_of_eq_None_iff)
  have step: "Object_defineProperty this key (value_descriptor (JNum (int ?n))) = Inr ?self'"
    using fresh Cons.prems(1) by (rule define_value_fresh)
  have "iota_loop ks ?self' (Some (Suc ?n)) =
     (None, ?self'\<lparr>props := props ?self' @ iota_members (counter_value (Some (Suc ?n))) ks\<rparr>,
      if ks = [] then Some (Suc ?n) else Some (counter_value (Some (Suc ?n)) + length ks))"
    using Cons.prems by (intro Cons.IH) auto
  then show ?case
    by (simp add: Enum_iota_eq step)
qed

lemma iota_loop_append:
  "iota_loop (xs @ ys) this c =
     (case iota_loop xs this c of
        (None, this', c') \<Rightarrow> iota_loop ys this' c'
      | (Some e, this', c') \<Rightarrow> (Some e, this', c'))"
  by (induction xs arbitrary: this c) (simp_all add: Enum_iota_eq split: sum.split)

lemma iota_loop_second_occurrence:
  assumes "distinct xs" "k \<in> set xs"
  shows "iota_loop (xs @ k # ys) (empty_object :: 'w obj) c =
           (Some TypeError, \<lparr>props = iota_members (counter_value c) xs, extensible = True\<rparr>,
            Some (counter_value c + length xs + 1))"
proof -
  let ?n = "counter_value c"
  let ?self = "(\<lparr>props = iota_members ?n xs, extensible = True\<rparr> :: 'w obj)"
  from assms have ne: "xs \<noteq> []" by auto
  have run: "iota_loop xs (empty_object :: 'w obj) c = (None, ?self, Some (?n + length xs))"
    using iota_loop_ok[of "empty_object :: 'w obj" xs c] assms ne
    by (simp add: empty_object_def)
  from assms obtain i where i: "i < length xs" "xs ! i = k"
    by (auto simp: in_set_conv_nth)
  then have "map_of (props ?self) k = Some (fixed_member (JNum (int (?n + i))))"
    using map_of_iota_members_nth[OF assms(1), of i ?n] by simp
  then have "Object_defineProperty ?self k (value_descriptor (JNum (int (?n + length xs)))) = Inl TypeError"
    using i define_value_again[of ?self k "JNum (int (?n + i))" "JNum (int (?n + length xs))"]
    by simp
  then show ?thesis
    by (simp add: iota_loop_append run Enum_iota_eq)
qed

lemma iota_loop_error_iff:
  "fst (iota_loop ks (empty_object :: 'w obj) c) = None \<longleftrightarrow> distinct ks"
proof (cases "distinct ks")
  case True
  then show ?thesis
    using iota_loop_ok[of "empty_object :: 'w obj" ks c] by (simp add: empty_object_def)
next
  case False
  then obtain xs y ys where "y \<in> set xs" "distinct xs" "ks = xs @ y # ys"
    using not_distinct_conv_prefix[of ks] by blast
  with False show ?thesis
    using iota_loop_second_occurrence[of xs y ys c, where 'w='w] by simp
qed


lemma filter_first_occurrences_neq:
  "filter P (first_occurrences (filter (\<lambda>y. y \<noteq> x) xs)) =
   filter (\<lambda>r. r \<noteq> x \<and> P r) (first_occurrences xs)"
  by (simp add: first_occurrences_filter)

lemma filter_first_occurrences_seen:
  "x \<in> set seen \<Longrightarrow>
   filter (\<lambda>r. r \<notin> set seen) (first_occurrences (filter (\<lambda>y. y \<noteq> x) xs)) =
   filter (\<lambda>r. r \<notin> set seen) (first_occurrences xs)"
  by (auto simp: filter_first_occurrences_neq intro: filter_cong)

lemma map_of_auto_members:
  "inj_on cc (insert r (set seen)) \<Longrightarrow>
   map_of (auto_members cc seen) (cc r) = (if r \<in> set seen then Some (fixed_member (JStr r)) else None)"
proof (induction seen)
  case Nil
  show ?case by (simp add: auto_members_def)
next
  case (Cons a seen)
  from Cons.prems have inj: "inj_on cc (insert r (set seen))"
    by (auto simp: inj_on_def)
  from Cons.prems have eq: "cc a = cc r \<longleftrightarrow> a = r"
    by (auto simp: inj_on_def)
  show ?case
    using Cons.IH[OF inj] eq by (auto simp: auto_members_def)
qed

lemma auto_loop_ok:
  "extensible this \<Longrightarrow> props this = auto_members cc seen \<Longrightarrow> inj_on cc (set seen \<union> set rows) \<Longrightarrow>
   auto_loop cc rows this =
     (None, this\<lparr>props := auto_members cc (seen @ filter (\<lambda>r. r \<notin> set seen) (first_occurrences rows))\<rparr>)"
proof (induction rows arbitrary: this seen)
  case Nil
  then show ?case by simp
next
  case (Cons row rows)
  from Cons.prems(3) have inj1: "inj_on cc (insert row (set seen))"
    by (auto simp: inj_on_def)
  have look: "map_of (props this) (cc row) =
              (if row \<in> set seen then Some (fixed_member (JStr row)) else None)"
    using map_of_auto_members[OF inj1] Cons.prems(2) by simp
  show ?case
  proof (cases "row \<in> set seen")
    case True
    then have step: "Object_defineProperty this (cc row) (value_descriptor (JStr row)) = Inr this"
      using look define_value_again[of this "cc row" "JStr row" "JStr row"] by simp
    have same: "filter (\<lambda>r. r \<notin> set seen) (first_occurrences (filter (\<lambda>y. y \<noteq> row) rows)) =
                filter (\<lambda>r. r \<notin> set seen) (first_occurrences rows)"
      using True by (rule filter_first_occurrences_seen)
    have "auto_loop cc rows this =
       (None, this\<lparr>props := auto_members cc (seen @ filter (\<lambda>r. r \<notin> set seen) (first_occurrences rows))\<rparr>)"
      using Cons.prems by (intro Cons.IH) (auto simp: inj_on_def)
    then show ?thesis using True by (simp add: step same)
  next
    case False
    let ?this' = "this\<lparr>props := props this @ [(cc row, fixed_member (JStr row))]\<rparr>"
    have step: "Object_defineProperty this (cc row) (value_descriptor (JStr row)) = Inr ?this'"
      using look False Cons.prems(1) by (intro define_value_fresh) simp_all
    have p': "props ?this' = auto_members cc (seen @ [row])"
      using Cons.prems(2) by (simp add: auto_members_def)
    have "auto_loop cc rows ?this' =
       (None, ?this'\<lparr>props := auto_members cc ((seen @ [row]) @ filter (\<lambda>r. r \<notin> set (seen @ [row])) (first_occurrences rows))\<rparr>)"
      using Cons.prems(1,3) p' by (intro Cons.IH) (auto simp: inj_on_def)
    then show ?thesis using False by (simp add: step filter_first_occurrences_neq)
  qed
qed

lemma auto_loop_append:
  "auto_loop cc (xs @ ys) this =
     (case auto_loop cc xs this of
        (None, this') \<Rightarrow> auto_loop cc ys this'
      | (Some e, this') \<Rightarrow> (Some e, this'))"
  by (induction xs arbitrary: this) (simp_all add: Let_def split: sum.split)

lemma auto_loop_clash:
  assumes "inj_on cc (set xs)" "r0 \<in> set xs" "cc r0 = cc r" "r0 \<noteq> r"
  shows "auto_loop cc (xs @ r # ys) (empty_object :: 'w obj) =
           (Some TypeError, \<lparr>props = auto_members cc (first_occurrences xs), extensible = True\<rparr>)"
proof -
  let ?self = "(\<lparr>props = auto_members cc (first_occurrences xs), extensible = True\<rparr> :: 'w obj)"
  have run: "auto_loop cc xs (empty_object :: 'w obj) = (None, ?self)"
    using auto_loop_ok[of "empty_object :: 'w obj" cc "[]" xs] assms(1)
    by (simp add: empty_object_def auto_members_def)
  have "inj_on cc (insert r0 (set (first_occurrences xs)))"
    using assms(1,2) by (simp add: set_first_occurrences insert_absorb)
  from map_of_auto_members[OF this]
  have "map_of (props ?self) (cc r) = Some (fixed_member (JStr r0))"
    using assms(2,3) by (simp add: set_first_occurrences)
  then have "Object_defineProperty ?self (cc r) (value_descriptor (JStr r)) = Inl TypeError"
    using assms(4) define_value_again[of ?self "cc r" "JStr r0" "JStr r"] by simp
  then show ?thesis
    by (simp add: auto_loop_append run)
qed

lemma not_inj_on_prefix:
  "\<not> inj_on f (set rows) \<Longrightarrow>
   \<exists>xs r ys r0. rows = xs @ r # ys \<and> inj_on f (set xs) \<and> r0 \<in> set xs \<and> f r0 = f r \<and> r0 \<noteq> r"
proof (induction rows rule: rev_induct)
  case Nil
  then show ?case by simp
next
  case (snoc r rows)
  show ?case
  proof (cases "inj_on f (set rows)")
    case True
    with snoc.prems obtain r0 where "r0 \<in> set rows" "f r0 = f r" "r0 \<noteq> r"
      by (auto simp: inj_on_def)
    with True show ?thesis by (intro exI[of _ rows] exI[of _ r] exI[of _ "[]"] exI[of _ r0]) simp
  next
    case False
    from snoc.IH[OF this] obtain xs r' ys r0 where
      "rows = xs @ r' # ys" "inj_on f (set xs)" "r0 \<in> set xs" "f r0 = f r'" "r0 \<noteq> r'"
      by blast
    then show ?thesis
      by (intro exI[of _ xs] exI[of _ r'] exI[of _ "ys @ [r]"] exI[of _ r0]) simp
  qed
qed

lemma auto_loop_error_iff:
  "fst (auto_loop cc rows (empty_object :: 'w obj)) = None \<longleftrightarrow> inj_on cc (set rows)"
proof (cases "inj_on cc (set rows)")
  case True
  then show ?thesis
    using auto_loop_ok[of "empty_object :: 'w obj" cc "[]" rows]
    by (simp add: empty_object_def auto_members_def)
next
  case False
  from not_inj_on_prefix[OF this] obtain xs r ys r0 where
    "rows = xs @ r # ys" "inj_on cc (set xs)" "r0 \<in> set xs" "cc r0 = cc r" "r0 \<noteq> r"
    by blast
  with False show ?thesis
    using auto_loop_clash[of cc xs r0 r ys, where 'w='w] by simp
qed

lemma map_of_mapping_members:
  "map_of (mapping_members m seen) k = (if k \<in> set seen then Some (member_of (map_of m k)) else None)"
  by (induction seen) (auto simp: mapping_members_def)

lemma define_member_fresh:
  assumes "map_of (props this) k = None" "extensible this"
  shows "Object_defineProperty this k
     (case x of Some (Function f) \<Rightarrow> no_fields\<lparr>d_enumerable := Some True\<rparr>\<lparr>d_get := Some (Some f)\<rparr>
              | Some (Plain v) \<Rightarrow> no_fields\<lparr>d_enumerable := Some True\<rparr>\<lparr>d_value := Some v\<rparr>
              | None \<Rightarrow> no_fields\<lparr>d_enumerable := Some True\<rparr>\<lparr>d_value := Some JUndefined\<rparr>)
   = Inr (this\<lparr>props := props this @ [(k, member_of x)]\<rparr>)"
proof (cases x)
  case None
  then show ?thesis using assms by (simp add: define_value_fresh)
next
  case (Some y)
  then show ?thesis using assms by (cases y) (simp_all add: define_value_fresh define_getter_fresh)
qed

lemma define_member_again:
  assumes "map_of (props this) k = Some (member_of x)"
  shows "Object_defineProperty this k
     (case x of Some (Function f) \<Rightarrow> no_fields\<lparr>d_enumerable := Some True\<rparr>\<lparr>d_get := Some (Some f)\<rparr>
              | Some (Plain v) \<Rightarrow> no_fields\<lparr>d_enumerable := Some True\<rparr>\<lparr>d_value := Some v\<rparr>
              | None \<Rightarrow> no_fields\<lparr>d_enumerable := Some True\<rparr>\<lparr>d_value := Some JUndefined\<rparr>)
   = Inr this"
proof (cases x)
  case None
  then show ?thesis using assms define_value_again[of this k JUndefined JUndefined] by simp
next
  case (Some y)
  show ?thesis
  proof (cases y)
    case (Plain v)
    with Some show ?thesis using assms define_value_again[of this k v v] by simp
  next
    case (Function f)
    with Some show ?thesis using assms define_getter_again[of this k f] by simp
  qed
qed

lemma mapping_loop_ok:
  "extensible this \<Longrightarrow> props this = mapping_members m seen \<Longrightarrow>
   mapping_loop m ks this =
     (None, this\<lparr>props := mapping_members m (seen @ filter (\<lambda>k. k \<notin> set seen) (first_occurrences ks))\<rparr>)"
proof (induction ks arbitrary: this seen)
  case Nil
  then show ?case by simp
next
  case (Cons key ks)
  have look: "map_of (props this) key = (if key \<in> set seen then Some (member_of (map_of m key)) else None)"
    using Cons.prems(2) by (simp add: map_of_mapping_members)
  show ?case
  proof (cases "key \<in> set seen")
    case True
    have "mapping_loop m ks this =
       (None, this\<lparr>props := mapping_members m (seen @ filter (\<lambda>k. k \<notin> set seen) (first_occurrences ks))\<rparr>)"
      using Cons.prems by (intro Cons.IH)
    then show ?thesis
      using True look define_member_again[of this key "map_of m key"]
      by (simp add: filter_first_occurrences_seen)
  next
    case False
    let ?self' = "this\<lparr>props := props this @ [(key, member_of (map_of m key))]\<rparr>"
    have p': "props ?self' = mapping_members m (seen @ [key])"
      using Cons.prems(2) by (simp add: mapping_members_def)
    have "mapping_loop m ks ?self' =
       (None, ?self'\<lparr>props := mapping_members m ((seen @ [key]) @ filter (\<lambda>k. k \<notin> set (seen @ [key])) (first_occurrences ks))\<rparr>)"
      using Cons.prems(1) p' by (intro Cons.IH) auto
    then show ?thesis
      using False look Cons.prems(1) define_member_fresh[of this key "map_of m key"]
      by (simp add: filter_first_occurrences_neq)
  qed
qed

lemma freeze_fixed_member: "freeze_property (fixed_member v) = fixed_member v"
  by (simp add: freeze_property_def fixed_member_def)

lemma freeze_computed_member: "freeze_property (computed_member f) = computed_member f"
  by (simp add: freeze_property_def computed_member_def)

lemma freeze_member_of: "freeze_property (member_of x) = member_of x"
  by (cases x rule: member_of.cases) (simp_all add: freeze_fixed_member freeze_computed_member)

lemma freeze_iota_members:
  "map (\<lambda>(k, p). (k, freeze_property p)) (iota_members n ks) = iota_members n ks"
  by (induction ks arbitrary: n) (simp_all add: freeze_fixed_member)

lemma freeze_auto_members:
  "map (\<lambda>(k, p). (k, freeze_property p)) (auto_members cc rows) = auto_members cc rows"
  by (simp add: auto_members_def freeze_fixed_member)

lemma freeze_mapping_members:
  "map (\<lambda>(k, p). (k, freeze_property p)) (mapping_members m ks) = mapping_members m ks"
  by (simp add: mapping_members_def freeze_member_of)

lemma Enum_constructor_iota:
  "distinct ks \<Longrightarrow>
   Enum_constructor cc (Array ks :: 'w enums) False c =
     (None, \<lparr>props = iota_members (counter_value c) ks, extensible = False\<rparr>,
      if ks = [] then c else Some (counter_value c + length ks))"
  using iota_loop_ok[of "empty_object :: 'w obj" ks c]
  by (simp add: Enum_constructor_def empty_object_def Object_freeze_def freeze_iota_members)

lemma Enum_constructor_iota_second_occurrence:
  "distinct xs \<Longrightarrow> k \<in> set xs \<Longrightarrow>
   Enum_constructor cc (Array (xs @ k # ys) :: 'w enums) False c =
     (Some TypeError, \<lparr>props = iota_members (counter_value c) xs, extensible = True\<rparr>,
      Some (counter_value c + length xs + 1))"
  using iota_loop_second_occurrence[of xs k ys c, where 'w='w]
  by (simp add: Enum_constructor_def Let_def)

lemma Enum_constructor_auto:
  "inj_on cc (set rows) \<Longrightarrow>
   Enum_constructor cc (Array rows :: 'w enums) True c =
     (None, \<lparr>props = auto_members cc (first_occurrences rows), extensible = False\<rparr>, c)"
  using auto_loop_ok[of "empty_object :: 'w obj" cc "[]" rows]
  by (simp add: Enum_constructor_def empty_object_def Object_freeze_def freeze_fixed_member auto_members_def)

lemma Enum_constructor_auto_clash:
  "inj_on cc (set xs) \<Longrightarrow> r0 \<in> set xs \<Longrightarrow> cc r0 = cc r \<Longrightarrow> r0 \<noteq> r \<Longrightarrow>
   Enum_constructor cc (Array (xs @ r # ys) :: 'w enums) True c =
     (Some TypeError, \<lparr>props = auto_members cc (first_occurrences xs), extensible = True\<rparr>, c)"
  using auto_loop_clash[of cc xs r0 r ys, where 'w='w]
  by (simp add: Enum_constructor_def Let_def)

lemma Enum_constructor_mapping:
  "Enum_constructor cc (Mapping m) False c =
     (None, \<lparr>props = mapping_members m (first_occurrences (own_property_keys m)), extensible = False\<rparr>, c)"
  using mapping_loop_ok[of empty_object m "[]" "own_property_keys m"]
  by (simp add: Enum_constructor_def empty_object_def Object_freeze_def freeze_member_of mapping_members_def)

lemma Enum_constructor_mapping_auto:
  "Enum_constructor cc (Mapping m) True c = (Some TypeError, empty_object, c)"
  by (simp add: Enum_constructor_def)

section \<open>The constructor\<close>

lemma Enum_new_iota:
  "distinct ks \<Longrightarrow>
   Enum_new cc (Array ks :: 'w enums) False c =
     (Inr \<lparr>props = iota_members (counter_value c) ks, extensible = False\<rparr>,
      if ks = [] then c else Some (counter_value c + length ks))"
  by (simp add: Enum_new_def Enum_constructor_iota)

lemma Enum_new_iota_error_iff:
  "fst (Enum_new cc (Array ks :: 'w enums) False c) = Inl TypeError \<longleftrightarrow> \<not> distinct ks"
proof (cases "distinct ks")
  case True
  then show ?thesis by (simp add: Enum_new_iota)
next
  case False
  then obtain xs y ys where "y \<in> set xs" "distinct xs" "ks = xs @ y # ys"
    using not_distinct_conv_prefix[of ks] by blast
  with False show ?thesis
    using Enum_constructor_iota_second_occurrence[of xs y cc ys c, where 'w='w]
    by (simp add: Enum_new_def)
qed

lemma Enum_new_auto:
  "inj_on cc (set rows) \<Longrightarrow>
   Enum_new cc (Array rows :: 'w enums) True c =
     (Inr \<lparr>props = auto_members cc (first_occurrences rows), extensible = False\<rparr>, c)"
  by (simp add: Enum_new_def Enum_constructor_auto)

lemma Enum_new_auto_error_iff:
  "fst (Enum_new cc (Array rows :: 'w enums) True c) = Inl TypeError \<longleftrightarrow> \<not> inj_on cc (set rows)"
proof (cases "inj_on cc (set rows)")
  case True
  then show ?thesis by (simp add: Enum_new_auto)
next
  case False
  from not_inj_on_prefix[OF this] obtain xs r ys r0 where
    "rows = xs @ r # ys" "inj_on cc (set xs)" "r0 \<in> set xs" "cc r0 = cc r" "r0 \<noteq> r"
    by blast
  with False show ?thesis
    using Enum_constructor_auto_clash[of cc xs r0 r ys c, where 'w='w]
    by (simp add: Enum_new_def)
qed

lemma Enum_new_mapping:
  "Enum_new cc (Mapping m) False c =
     (Inr \<lparr>props = mapping_members m (first_occurrences (own_property_keys m)), extensible = False\<rparr>, c)"
  by (simp add: Enum_new_def Enum_constructor_mapping)

lemma Enum_new_mapping_auto: "Enum_new cc (Mapping m) True c = (Inl TypeError, c)"
  by (simp add: Enum_new_def Enum_constructor_mapping_auto)

lemma Enum_new_counter_unchanged:
  "(\<forall>ks. (enums, auto) \<noteq> (Array ks, False)) \<Longrightarrow> snd (Enum_new cc enums auto c) = c"
proof (cases enums)
  case (Array rows)
  assume "\<forall>ks. (enums, auto) \<noteq> (Array ks, False)"
  with Array have "auto" by simp
  then show ?thesis
    using Array by (simp add: Enum_new_def Enum_constructor_def Let_def split: prod.split option.split)
next
  case (Mapping m)
  then show ?thesis
    by (cases auto) (simp_all add: Enum_new_mapping Enum_new_mapping_auto)
qed

lemma Enum_new_counter_mono:
  "counter_value c \<le> counter_value (snd (Enum_new cc (enums :: 'w enums) auto c))"
proof (cases "\<exists>ks. (enums, auto) = (Array ks, False)")
  case False
  then have "snd (Enum_new cc enums auto c) = c"
    by (intro Enum_new_counter_unchanged) auto
  then show ?thesis by simp
next
  case True
  then obtain ks where eq: "enums = Array ks" "auto = False" by auto
  show ?thesis
  proof (cases "distinct ks")
    case True
    then show ?thesis using eq by (simp add: Enum_new_iota)
  next
    case False
    then obtain xs y ys where "y \<in> set xs" "distinct xs" "ks = xs @ y # ys"
      using not_distinct_conv_prefix[of ks] by blast
    then show ?thesis
      using eq Enum_constructor_iota_second_occurrence[of xs y cc ys c, where 'w='w]
      by (simp add: Enum_new_def)
  qed
qed

lemma Enum_new_iota_result:
  assumes "Enum_new cc (Array ks) False c = (Inr (e :: 'w obj), c')"
  shows "distinct ks \<and> e = \<lparr>props = iota_members (counter_value c) ks, extensible = False\<rparr>
         \<and> counter_value c' = counter_value c + length ks"
proof -
  have d: "distinct ks"
  proof (rule ccontr)
    assume "\<not> distinct ks"
    then have "fst (Enum_new cc (Array ks :: 'w enums) False c) = Inl TypeError"
      by (simp add: Enum_new_iota_error_iff)
    with assms show False by simp
  qed
  with assms show ?thesis by (auto simp: Enum_new_iota)
qed

lemma Get_fixed_member:
  "map_of (props e) k = Some (fixed_member v) \<Longrightarrow> Get e k w = (v, w)"
  by (simp add: Get_def fixed_member_def)

lemma Get_computed_member:
  "map_of (props e) k = Some (computed_member f) \<Longrightarrow> Get e k w = fun_call f w"
  by (simp add: Get_def computed_member_def)


lemma run_constructions_iota:
  assumes "run_constructions cc calls c = (results, c_end)"
    and "j < length calls"
    and "calls ! j = (Array ks, False)"
    and "results ! j = Inr (e :: 'w obj)"
  shows "\<exists>n. counter_value c \<le> n \<and> distinct ks
           \<and> e = \<lparr>props = iota_members n ks, extensible = False\<rparr>
           \<and> (\<forall>i<j. \<forall>ks' e'. calls ! i = (Array ks', False) \<longrightarrow> results ! i = Inr e' \<longrightarrow>
                 (\<exists>n'. distinct ks' \<and> e' = \<lparr>props = iota_members n' ks', extensible = False\<rparr>
                       \<and> n' + length ks' \<le> n))
           \<and> ((\<forall>i<j. \<forall>ks'. calls ! i \<noteq> (Array ks', False)) \<longrightarrow> n = counter_value c)"
  using assms
proof (induction calls arbitrary: c j results)
  case Nil
  then show ?case by simp
next
  case (Cons call calls)
  obtain enums auto where call: "call = (enums, auto)" by (cases call)
  obtain r c' where first: "Enum_new cc enums auto c = (r, c')" by (cases "Enum_new cc enums auto c")
  obtain rs c'' where rest: "run_constructions cc calls c' = (rs, c'')"
    by (cases "run_constructions cc calls c'")
  from Cons.prems(1) call first rest have res: "results = r # rs" and cend: "c'' = c_end"
    by auto
  have mono: "counter_value c \<le> counter_value c'"
    using Enum_new_counter_mono[of c cc enums auto] first by simp
  show ?case
  proof (cases j)
    case 0
    with Cons.prems call res have "enums = Array ks" "auto = False" "r = Inr e" by auto
    with first have "distinct ks \<and> e = \<lparr>props = iota_members (counter_value c) ks, extensible = False\<rparr>
         \<and> counter_value c' = counter_value c + length ks"
      by (intro Enum_new_iota_result) simp
    with 0 show ?thesis by (intro exI[of _ "counter_value c"]) simp
  next
    case (Suc j')
    with Cons.prems res have p: "j' < length calls" "calls ! j' = (Array ks, False)" "rs ! j' = Inr e"
      by auto
    from Cons.IH[OF _ p, of c'] rest cend obtain n where
      n: "counter_value c' \<le> n" "distinct ks" "e = \<lparr>props = iota_members n ks, extensible = False\<rparr>"
      and earlier: "\<forall>i<j'. \<forall>ks' e'. calls ! i = (Array ks', False) \<longrightarrow> rs ! i = Inr e' \<longrightarrow>
                 (\<exists>n'. distinct ks' \<and> e' = \<lparr>props = iota_members n' ks', extensible = False\<rparr>
                       \<and> n' + length ks' \<le> n)"
      and start: "(\<forall>i<j'. \<forall>ks'. calls ! i \<noteq> (Array ks', False)) \<longrightarrow> n = counter_value c'"
      by blast
    have e1: "\<exists>n'. distinct ks' \<and> e' = \<lparr>props = iota_members n' ks', extensible = False\<rparr>
                       \<and> n' + length ks' \<le> n"
      if i: "i < j" and ci: "(call # calls) ! i = (Array ks', False)" and ri: "results ! i = Inr e'"
      for i ks' e'
    proof (cases i)
      case 0
      with ci ri call res have "enums = Array ks'" "auto = False" "r = Inr e'" by auto
      with first have "distinct ks' \<and> e' = \<lparr>props = iota_members (counter_value c) ks', extensible = False\<rparr>
         \<and> counter_value c' = counter_value c + length ks'"
        by (intro Enum_new_iota_result) simp
      with n(1) show ?thesis by (intro exI[of _ "counter_value c"]) simp
    next
      case (Suc i')
      with i ci ri res Suc \<open>j = Suc j'\<close> have "i' < j'" "calls ! i' = (Array ks', False)" "rs ! i' = Inr e'"
        by auto
      with earlier show ?thesis by blast
    qed
    have e2: "n = counter_value c" if no: "\<forall>i<j. \<forall>ks'. (call # calls) ! i \<noteq> (Array ks', False)"
    proof -
      from no Suc have "\<forall>ks'. (enums, auto) \<noteq> (Array ks', False)"
        using call by auto
      then have "snd (Enum_new cc enums auto c) = c" by (rule Enum_new_counter_unchanged)
      with first have "c' = c" by simp
      moreover from no Suc have "\<forall>i<j'. \<forall>ks'. calls ! i \<noteq> (Array ks', False)" by auto
      ultimately show ?thesis using start by simp
    qed
    from n mono e1 e2 show ?thesis
      by (intro exI[of _ n]) (auto simp del: nth_Cons_Suc nth_Cons_0)
  qed
qed


text \<open>
  Claim C1. In a process that starts with the counter undefined and builds enumerations
  one after the other, let the call number \<open>j\<close> build an enumeration from the keys \<open>ks\<close>
  without the auto flag. Then there is a number \<open>n \<ge> 0\<close> such that key number \<open>i\<close> of \<open>ks\<close>
  reads as \<open>n + i\<close> (non-negative integers, strictly increasing in declaration order);
  every value of every enumeration built so from keys by an earlier call is below \<open>n\<close>,
  hence differs from all values of this one; and \<open>n = 0\<close> when no earlier call was one
  from keys without the auto flag.
\<close>

theorem iota_values_increasing_and_fresh:
  assumes "run_constructions cc calls None = (results, c_end)"
    and "j < length calls"
    and "calls ! j = (Array ks, False)"
    and "results ! j = Inr (e :: 'w obj)"
  shows "\<exists>n. (\<forall>i<length ks. \<forall>w. Get e (ks ! i) w = (JNum (int (n + i)), w))
           \<and> (\<forall>i<j. \<forall>ks' e'. calls ! i = (Array ks', False) \<longrightarrow> results ! i = Inr e' \<longrightarrow>
                 (\<forall>k\<in>set ks'. \<forall>w. \<exists>m<n. Get e' k w = (JNum (int m), w)))
           \<and> ((\<forall>i<j. \<forall>ks'. calls ! i \<noteq> (Array ks', False)) \<longrightarrow> n = 0)"
proof -
  from run_constructions_iota[OF assms] obtain n where
    d: "distinct ks" and e: "e = \<lparr>props = iota_members n ks, extensible = False\<rparr>"
    and earlier: "\<forall>i<j. \<forall>ks' e'. calls ! i = (Array ks', False) \<longrightarrow> results ! i = Inr e' \<longrightarrow>
                 (\<exists>n'. distinct ks' \<and> e' = \<lparr>props = iota_members n' ks', extensible = False\<rparr>
                       \<and> n' + length ks' \<le> n)"
    and start: "(\<forall>i<j. \<forall>ks'. calls ! i \<noteq> (Array ks', False)) \<longrightarrow> n = counter_value None"
    by blast
  have own: "Get e (ks ! i) w = (JNum (int (n + i)), w)" if "i < length ks" for i w
  proof -
    have "map_of (props e) (ks ! i) = Some (fixed_member (JNum (int (n + i))))"
      using that d e map_of_iota_members_nth[of ks i n] by simp
    then show ?thesis by (rule Get_fixed_member)
  qed
  have old: "\<exists>m<n. Get e' k w = (JNum (int m), w)"
    if "i < j" "calls ! i = (Array ks', False)" "results ! i = Inr e'" "k \<in> set ks'"
    for i ks' e' k w
  proof -
    from earlier that obtain n' where
      n': "distinct ks'" "e' = \<lparr>props = iota_members n' ks', extensible = False\<rparr>" "n' + length ks' \<le> n"
      by blast
    from that(4) obtain i' where i': "i' < length ks'" "ks' ! i' = k"
      by (auto simp: in_set_conv_nth)
    have "map_of (props e') (ks' ! i') = Some (fixed_member (JNum (int (n' + i'))))"
      using n' i' map_of_iota_members_nth[of ks' i' n'] by simp
    then have "Get e' (ks' ! i') w = (JNum (int (n' + i')), w)"
      by (rule Get_fixed_member)
    with i' n'(3) show ?thesis by (intro exI[of _ "n' + i'"]) simp
  qed
  from own old start show ?thesis
    by (intro exI[of _ n]) auto
qed

theorem iota_values_increasing_and_fresh_witness:
  "run_constructions upper_ascii
     [(Array [''RED'', ''BLACK''], False), (Array [''A'', ''A''], False),
      (Array [''UP'', ''DOWN''], False)] None =
     ([Inr \<lparr>props = iota_members 0 [''RED'', ''BLACK''], extensible = False\<rparr>,
       Inl TypeError,
       Inr (\<lparr>props = iota_members 4 [''UP'', ''DOWN''], extensible = False\<rparr> :: nat obj)], Some 6)
   \<and> (\<exists>n. Get (\<lparr>props = iota_members 4 [''UP'', ''DOWN''], extensible = False\<rparr> :: nat obj) ''UP'' 0
              = (JNum (int n), 0)
          \<and> Get (\<lparr>props = iota_members 4 [''UP'', ''DOWN''], extensible = False\<rparr> :: nat obj) ''DOWN'' 0
              = (JNum (int (n + 1)), 0)
          \<and> (\<exists>m<n. Get (\<lparr>props = iota_members 0 [''RED'', ''BLACK''], extensible = False\<rparr> :: nat obj)
                        ''BLACK'' 0 = (JNum (int m), 0)))"
proof -
  let ?calls = "[(Array [''RED'', ''BLACK''], False), (Array [''A'', ''A''], False),
      (Array [''UP'', ''DOWN''], False)] :: (nat enums \<times> bool) list"
  let ?e0 = "\<lparr>props = iota_members 0 [''RED'', ''BLACK''], extensible = False\<rparr> :: nat obj"
  let ?e2 = "\<lparr>props = iota_members 4 [''UP'', ''DOWN''], extensible = False\<rparr> :: nat obj"
  have r0: "Enum_new upper_ascii (Array [''RED'', ''BLACK''] :: nat enums) False None = (Inr ?e0, Some 2)"
    by (simp add: Enum_new_iota)
  have r1: "Enum_new upper_ascii (Array [''A'', ''A''] :: nat enums) False (Some 2) = (Inl TypeError, Some 4)"
    using Enum_constructor_iota_second_occurrence[of "[''A'']" "''A''" upper_ascii "[]" "Some 2", where 'w=nat]
    by (simp add: Enum_new_def)
  have r2: "Enum_new upper_ascii (Array [''UP'', ''DOWN''] :: nat enums) False (Some 4) = (Inr ?e2, Some 6)"
    by (simp add: Enum_new_iota)
  have run: "run_constructions upper_ascii ?calls None = ([Inr ?e0, Inl TypeError, Inr ?e2], Some 6)"
    by (simp only: run_constructions.simps r0 r1 r2 prod.case)
  from iota_values_increasing_and_fresh[OF run, of 2 "[''UP'', ''DOWN'']" ?e2]
  obtain n where
    own: "\<forall>i<length [''UP'', ''DOWN'']. \<forall>w. Get ?e2 ([''UP'', ''DOWN''] ! i) w = (JNum (int (n + i)), w)"
    and old: "\<forall>i<2. \<forall>ks' e'. ?calls ! i = (Array ks', False) \<longrightarrow>
                [Inr ?e0, Inl TypeError, Inr ?e2] ! i = Inr e' \<longrightarrow>
                 (\<forall>k\<in>set ks'. \<forall>w. \<exists>m<n. Get e' k w = (JNum (int m), w))"
    by auto
  from own have "Get ?e2 ([''UP'', ''DOWN''] ! 0) 0 = (JNum (int (n + 0)), 0)" by blast
  then have a: "Get ?e2 ''UP'' 0 = (JNum (int n), 0)" by simp
  from own have "Get ?e2 ([''UP'', ''DOWN''] ! 1) 0 = (JNum (int (n + 1)), 0)" by force
  then have b: "Get ?e2 ''DOWN'' 0 = (JNum (int (n + 1)), 0)" by simp
  from old have "?calls ! 0 = (Array [''RED'', ''BLACK''], False) \<longrightarrow>
                [Inr ?e0, Inl TypeError, Inr ?e2] ! 0 = Inr ?e0 \<longrightarrow>
                 (\<forall>k\<in>set [''RED'', ''BLACK'']. \<forall>w. \<exists>m<n. Get ?e0 k w = (JNum (int m), w))"
    by (metis zero_less_numeral)
  then have c: "\<exists>m<n. Get ?e0 ''BLACK'' 0 = (JNum (int m), 0)" by simp
  from run a b c show ?thesis by blast
qed

text \<open>
  Claim C5. \<^verbatim>\<open>new Enum(mapping, true)\<close> throws a TypeError, and when it does \<open>this\<close> has no
  property and the counter is what it was: the constructor fails before any property is
  defined.
\<close>

theorem auto_with_mapping_fails:
  "Enum_new cc (Mapping m) True c = (Inl TypeError, c)
   \<and> Enum_constructor cc (Mapping m) True c = (Some TypeError, \<lparr>props = [], extensible = True\<rparr>, c)"
  by (simp add: Enum_new_mapping_auto Enum_constructor_mapping_auto empty_object_def)

theorem auto_with_mapping_fails_witness:
  "Enum_new upper_ascii (Mapping [(''a'', Plain (JNum 1))] :: nat enums) True None = (Inl TypeError, None)
   \<and> Enum_constructor upper_ascii (Mapping [(''a'', Plain (JNum 1))] :: nat enums) True None
       = (Some TypeError, \<lparr>props = [], extensible = True\<rparr>, None)"
  using auto_with_mapping_fails[of upper_ascii "[(''a'', Plain (JNum 1) :: nat member_init)]" None]
  by simp

lemma upper_ascii_foo: "upper_ascii ''foo'' = ''FOO''" "upper_ascii ''FOO'' = ''FOO''"
  by (simp_all add: upper_ascii_def)

text \<open>
  Claim C10, as stated, fails: the second occurrence of a key does not overwrite the
  first, it makes the constructor throw. \<^verbatim>\<open>new Enum(['A', 'A'])\<close> throws a TypeError (after
  the counter was read twice), and so does \<^verbatim>\<open>new Enum(['foo', 'FOO'], true)\<close> when both
  strings normalize to \<^verbatim>\<open>FOO\<close>: a property defined with default attributes is neither
  writable nor configurable, and \<^verbatim>\<open>Object.defineProperty\<close> refuses to give it another value.
\<close>

theorem duplicate_key_throws:
  "Enum_new upper_ascii (Array [''A'', ''A''] :: nat enums) False None = (Inl TypeError, Some 2)
   \<and> Enum_new upper_ascii (Array [''foo'', ''FOO''] :: nat enums) True None = (Inl TypeError, None)"
proof -
  have a: "Enum_new upper_ascii (Array [''A'', ''A''] :: nat enums) False None = (Inl TypeError, Some 2)"
    using Enum_constructor_iota_second_occurrence[of "[''A'']" "''A''" upper_ascii "[]" None, where 'w=nat]
    by (simp add: Enum_new_def)
  have b: "Enum_new upper_ascii (Array [''foo'', ''FOO''] :: nat enums) True None = (Inl TypeError, None)"
    using Enum_constructor_auto_clash[of upper_ascii "[''foo'']" "''foo''" "''FOO''" "[]" None, where 'w=nat]
    by (simp add: Enum_new_def upper_ascii_foo)
  from a b show ?thesis by simp
qed

text \<open>
  Claim C10, amended. In a construction from an ordered sequence that contains a
  duplicate key, each occurrence draws its own fresh counter value (iota mode) or gets
  its own normalized identifier (auto mode), and the second occurrence never overwrites
  the first. In iota mode the second occurrence of a key throws a TypeError: \<open>this\<close> keeps
  the values of the keys before it, and the counter has advanced once for every key up
  to and including it. In auto mode a string that normalizes to the identifier of a
  different earlier string throws a TypeError, and \<open>this\<close> keeps the earlier definitions;
  a string that occurs twice is accepted and its second occurrence changes nothing. So
  a construction in iota mode succeeds exactly when the keys are pairwise distinct, and
  one in auto mode exactly when no two different strings share an identifier.
\<close>

theorem duplicate_key_is_not_overwritten:
  "(distinct xs \<and> k \<in> set xs \<longrightarrow>
      Enum_constructor cc (Array (xs @ k # ys) :: 'w enums) False c =
        (Some TypeError, \<lparr>props = iota_members (counter_value c) xs, extensible = True\<rparr>,
         Some (counter_value c + length xs + 1))
      \<and> Enum_new cc (Array (xs @ k # ys) :: 'w enums) False c =
        (Inl TypeError, Some (counter_value c + length xs + 1)))
   \<and> (inj_on cc (set rs) \<and> r0 \<in> set rs \<and> cc r0 = cc r \<and> r0 \<noteq> r \<longrightarrow>
      Enum_constructor cc (Array (rs @ r # ts) :: 'w enums) True c =
        (Some TypeError, \<lparr>props = auto_members cc (first_occurrences rs), extensible = True\<rparr>, c)
      \<and> Enum_new cc (Array (rs @ r # ts) :: 'w enums) True c = (Inl TypeError, c))
   \<and> (inj_on cc (set rows) \<longrightarrow>
      Enum_new cc (Array rows :: 'w enums) True c =
        (Inr \<lparr>props = auto_members cc (first_occurrences rows), extensible = False\<rparr>, c))
   \<and> ((\<exists>e c'. Enum_new cc (Array ks :: 'w enums) False c = (Inr e, c')) \<longleftrightarrow> distinct ks)
   \<and> ((\<exists>e c'. Enum_new cc (Array rows :: 'w enums) True c = (Inr e, c')) \<longleftrightarrow> inj_on cc (set rows))"
proof -
  have iota: "Enum_constructor cc (Array (xs @ k # ys) :: 'w enums) False c =
        (Some TypeError, \<lparr>props = iota_members (counter_value c) xs, extensible = True\<rparr>,
         Some (counter_value c + length xs + 1))
      \<and> Enum_new cc (Array (xs @ k # ys) :: 'w enums) False c =
        (Inl TypeError, Some (counter_value c + length xs + 1))"
    if "distinct xs" "k \<in> set xs"
    using Enum_constructor_iota_second_occurrence[OF that, of cc ys c, where 'w='w]
    by (simp add: Enum_new_def)
  have auto: "Enum_constructor cc (Array (rs @ r # ts) :: 'w enums) True c =
        (Some TypeError, \<lparr>props = auto_members cc (first_occurrences rs), extensible = True\<rparr>, c)
      \<and> Enum_new cc (Array (rs @ r # ts) :: 'w enums) True c = (Inl TypeError, c)"
    if "inj_on cc (set rs)" "r0 \<in> set rs" "cc r0 = cc r" "r0 \<noteq> r"
    using Enum_constructor_auto_clash[OF that, of ts c, where 'w='w]
    by (simp add: Enum_new_def)
  have ok_iota: "(\<exists>e c'. Enum_new cc (Array ks :: 'w enums) False c = (Inr e, c')) \<longleftrightarrow> distinct ks"
  proof (cases "distinct ks")
    case True
    then show ?thesis by (simp add: Enum_new_iota)
  next
    case False
    then have "fst (Enum_new cc (Array ks :: 'w enums) False c) = Inl TypeError"
      by (simp add: Enum_new_iota_error_iff)
    with False show ?thesis by auto
  qed
  have ok_auto: "(\<exists>e c'. Enum_new cc (Array rows :: 'w enums) True c = (Inr e, c')) \<longleftrightarrow> inj_on cc (set rows)"
  proof (cases "inj_on cc (set rows)")
    case True
    then show ?thesis by (simp add: Enum_new_auto)
  next
    case False
    then have "fst (Enum_new cc (Array rows :: 'w enums) True c) = Inl TypeError"
      by (simp add: Enum_new_auto_error_iff)
    with False show ?thesis by auto
  qed
  from iota auto ok_iota ok_auto Enum_new_auto[of cc rows c, where 'w='w] show ?thesis
    by blast
qed

theorem duplicate_key_is_not_overwritten_witness:
  "Enum_constructor upper_ascii (Array [''A'', ''B'', ''A''] :: nat enums) False (Some 3) =
     (Some TypeError,
      \<lparr>props = [(''A'', fixed_member (JNum 3)), (''B'', fixed_member (JNum 4))], extensible = True\<rparr>,
      Some 6)
   \<and> Enum_new upper_ascii (Array [''foo'', ''FOO''] :: nat enums) True None = (Inl TypeError, None)
   \<and> Enum_new upper_ascii (Array [''foo'', ''foo''] :: nat enums) True None =
       (Inr \<lparr>props = [(''FOO'', fixed_member (JStr ''foo''))], extensible = False\<rparr>, None)"
  using duplicate_key_is_not_overwritten[where xs = "[''A'', ''B'']" and k = "''A''"
      and cc = upper_ascii and ys = "[]" and c = "Some 3" and rs = "[''foo'']" and ?r0.0 = "''foo''"
      and r = "''FOO''" and ts = "[]" and rows = "[''foo'', ''foo'']" and ks = "[]" and 'w = nat]
    duplicate_key_is_not_overwritten[where xs = "[]" and k = "''A''"
      and cc = upper_ascii and ys = "[]" and c = "None" and rs = "[''foo'']" and ?r0.0 = "''foo''"
      and r = "''FOO''" and ts = "[]" and rows = "[''foo'', ''foo'']" and ks = "[]" and 'w = nat]
  by (simp add: upper_ascii_foo auto_members_def)

section \<open>The array methods and the order of own keys\<close>

lemma findIndex_range: "- 1 \<le> Array_findIndex p xs \<and> Array_findIndex p xs < int (length xs)"
  by (induction xs) (auto simp: Let_def)

lemma findIndex_none: "Array_findIndex p xs = - 1 \<longleftrightarrow> (\<forall>x\<in>set xs. \<not> p x)"
proof (induction xs)
  case Nil
  show ?case by simp
next
  case (Cons x xs)
  have "- 1 \<le> Array_findIndex p xs" using findIndex_range[of p xs] by simp
  with Cons show ?case by (auto simp: Let_def)
qed

lemma findIndex_neg: "Array_findIndex p xs < 0 \<longleftrightarrow> (\<forall>x\<in>set xs. \<not> p x)"
  using findIndex_range[of p xs] findIndex_none[of p xs] by auto

lemma findIndex_append:
  "Array_findIndex p (xs @ ys) =
     (if \<exists>x\<in>set xs. p x then Array_findIndex p xs
      else if \<exists>y\<in>set ys. p y then int (length xs) + Array_findIndex p ys else - 1)"
proof (induction xs)
  case Nil
  then show ?case using findIndex_none[of p ys] by auto
next
  case (Cons x xs)
  show ?case
  proof (cases "p x")
    case True
    then show ?thesis by simp
  next
    case False
    then show ?thesis
      using Cons findIndex_neg[of p xs] findIndex_neg[of p ys] findIndex_neg[of p "xs @ ys"]
      by (auto simp: Let_def)
  qed
qed

lemma indexOf_at_prefix_end:
  "Array_indexOf (pre @ x # xs) x = int (length pre) \<longleftrightarrow> x \<noteq> JNaN \<and> x \<notin> set pre"
proof -
  have in_pre: "(\<exists>y\<in>set pre. strict_eq y x) \<longleftrightarrow> x \<noteq> JNaN \<and> x \<in> set pre"
    by (auto simp: strict_eq_def)
  show ?thesis
  proof (cases "x \<noteq> JNaN \<and> x \<in> set pre")
    case True
    then have "Array_indexOf (pre @ x # xs) x = Array_findIndex (\<lambda>y. strict_eq y x) pre"
      using in_pre by (simp add: Array_indexOf_def findIndex_append)
    moreover have "Array_findIndex (\<lambda>y. strict_eq y x) pre < int (length pre)"
      using findIndex_range[of _ pre] by simp
    ultimately show ?thesis using True by simp
  next
    case False
    then have no: "\<not> (\<exists>y\<in>set pre. strict_eq y x)" using in_pre by simp
    show ?thesis
    proof (cases "x = JNaN")
      case True
      have "\<And>y. \<not> strict_eq y JNaN" by (simp add: strict_eq_def)
      then have "Array_indexOf (pre @ x # xs) x = - 1"
        using True by (simp add: Array_indexOf_def findIndex_none)
      with True show ?thesis by simp
    next
      case False
      then have "strict_eq x x" by (simp add: strict_eq_def)
      then have "Array_indexOf (pre @ x # xs) x = int (length pre)"
        using no by (simp add: Array_indexOf_def findIndex_append)
      with False \<open>\<not> (x \<noteq> JNaN \<and> x \<in> set pre)\<close> show ?thesis by simp
    qed
  qed
qed

lemma filter_first_index_from:
  "map fst (filter (\<lambda>(v, i). Array_indexOf (pre @ s) v = int i)
              (zip s [length pre..<length pre + length s])) =
   filter (\<lambda>v. v \<notin> set pre) (first_occurrences (filter (\<lambda>v. v \<noteq> JNaN) s))"
proof (induction s arbitrary: pre)
  case Nil
  show ?case by simp
next
  case (Cons x xs)
  define n where "n = length pre"
  define rest where "rest = first_occurrences (filter (\<lambda>v. v \<noteq> JNaN) xs)"
  define tl_part where
    "tl_part = map fst (filter (\<lambda>(v, i). Array_indexOf (pre @ x # xs) v = int i)
                 (zip xs [Suc n..<Suc (n + length xs)]))"
  have "[n..<n + length (x # xs)] = n # [Suc n..<Suc (n + length xs)]"
    using upt_conv_Cons[of n "Suc (n + length xs)"] by (simp del: upt_Suc)
  then have z: "zip (x # xs) [n..<n + length (x # xs)] = (x, n) # zip xs [Suc n..<Suc (n + length xs)]"
    by (simp only: zip_Cons_Cons)
  have IH: "tl_part = filter (\<lambda>v. v \<noteq> x \<and> v \<notin> set pre) rest"
    using Cons.IH[of "pre @ [x]"] by (simp add: n_def tl_part_def rest_def conj_commute del: upt_Suc)
  have head: "Array_indexOf (pre @ x # xs) x = int n \<longleftrightarrow> x \<noteq> JNaN \<and> x \<notin> set pre"
    unfolding n_def by (rule indexOf_at_prefix_end)
  have lhs: "map fst (filter (\<lambda>(v, i). Array_indexOf (pre @ x # xs) v = int i)
              (zip (x # xs) [n..<n + length (x # xs)])) =
             (if x \<noteq> JNaN \<and> x \<notin> set pre then [x] else []) @ tl_part"
    unfolding z tl_part_def using head by (simp del: upt_Suc)
  have nonan: "JNaN \<notin> set rest"
    by (simp add: rest_def set_first_occurrences)
  have rhs: "filter (\<lambda>v. v \<notin> set pre) (first_occurrences (filter (\<lambda>v. v \<noteq> JNaN) (x # xs))) =
             (if x \<noteq> JNaN \<and> x \<notin> set pre then [x] else []) @ filter (\<lambda>v. v \<noteq> x \<and> v \<notin> set pre) rest"
  proof (cases "x = JNaN")
    case True
    have "filter (\<lambda>v. v \<noteq> JNaN \<and> v \<notin> set pre) rest = filter (\<lambda>v. v \<notin> set pre) rest"
      using nonan by (intro filter_cong) auto
    with True show ?thesis by (simp add: rest_def)
  next
    case False
    have "first_occurrences (filter (\<lambda>y. y \<noteq> x) (filter (\<lambda>v. v \<noteq> JNaN) xs)) =
          filter (\<lambda>y. y \<noteq> x) rest"
      unfolding rest_def by (rule first_occurrences_filter)
    then have "filter (\<lambda>v. v \<notin> set pre) (first_occurrences (filter (\<lambda>y. y \<noteq> x) (filter (\<lambda>v. v \<noteq> JNaN) xs))) =
          filter (\<lambda>v. v \<noteq> x \<and> v \<notin> set pre) rest"
      by simp
    with False show ?thesis by simp
  qed
  show ?case
    using lhs rhs IH by (simp only: n_def)
qed

lemma filter_first_index_eq:
  "filter_first_index s = first_occurrences (filter (\<lambda>v. v \<noteq> JNaN) s)"
  using filter_first_index_from[of "[]" s] by (simp add: filter_first_index_def)


lemma map_filter_index_tags:
  "List.map_filter (\<lambda>k. map_option (\<lambda>i. (i, k)) (array_index k)) ks =
   map (\<lambda>k. (the (array_index k), k)) (filter (\<lambda>k. array_index k \<noteq> None) ks)"
  by (induction ks) (auto simp: List.map_filter_simps)

lemma map_snd_insort_key_tag:
  "\<forall>p\<in>set ys. fst p = g (snd p) \<Longrightarrow>
   map snd (insort_key fst (g x, x) ys) = insort_key g x (map snd ys)"
  by (induction ys) auto

lemma sort_key_tags:
  "sort_key fst (map (\<lambda>k. (g k, k)) xs) = map (\<lambda>k. (g k, k)) (sort_key g xs)"
proof (induction xs)
  case Nil
  show ?case by simp
next
  case (Cons x xs)
  have "insort_key fst (g x, x) (map (\<lambda>k. (g k, k)) ys) = map (\<lambda>k. (g k, k)) (insort_key g x ys)" for ys
    by (induction ys) auto
  with Cons show ?case by simp
qed

lemma own_property_keys_eq:
  "own_property_keys ps =
     sort_key (\<lambda>k. the (array_index k)) (filter (\<lambda>k. array_index k \<noteq> None) (map fst ps))
     @ filter (\<lambda>k. array_index k = None) (map fst ps)"
  by (simp add: own_property_keys_def Let_def map_filter_index_tags sort_key_tags o_def)

lemma set_own_property_keys: "set (own_property_keys ps) = fst ` set ps"
  by (auto simp: own_property_keys_eq)

lemma length_own_property_keys: "length (own_property_keys ps) = length ps"
  using sum_length_filter_compl[of "\<lambda>k. array_index k \<noteq> None" "map fst ps"]
  by (simp add: own_property_keys_eq)

lemma distinct_own_property_keys:
  "distinct (map fst ps) \<Longrightarrow> distinct (own_property_keys ps)"
  by (auto simp: own_property_keys_eq)

lemma own_property_keys_no_index:
  "\<forall>k\<in>set (map fst ps). array_index k = None \<Longrightarrow> own_property_keys ps = map fst ps"
proof -
  assume a: "\<forall>k\<in>set (map fst ps). array_index k = None"
  then have "filter (\<lambda>k. array_index k \<noteq> None) (map fst ps) = []"
    by (auto simp: filter_empty_conv)
  moreover from a have "filter (\<lambda>k. array_index k = None) (map fst ps) = map fst ps"
    by (auto simp: filter_id_conv)
  ultimately show ?thesis by (simp only: own_property_keys_eq) simp
qed

lemma first_occurrences_append:
  "first_occurrences (xs @ ys) =
   first_occurrences xs @ filter (\<lambda>y. y \<notin> set xs) (first_occurrences ys)"
proof (induction xs arbitrary: ys rule: first_occurrences.induct)
  case 1
  show ?case by simp
next
  case (2 x xs)
  have "first_occurrences ((x # xs) @ ys) =
        x # first_occurrences (filter (\<lambda>y. y \<noteq> x) xs @ filter (\<lambda>y. y \<noteq> x) ys)"
    by simp
  also have "\<dots> = x # first_occurrences (filter (\<lambda>y. y \<noteq> x) xs)
        @ filter (\<lambda>y. y \<notin> set (filter (\<lambda>y. y \<noteq> x) xs)) (first_occurrences (filter (\<lambda>y. y \<noteq> x) ys))"
    using 2[of "filter (\<lambda>y. y \<noteq> x) ys"] by simp
  also have "\<dots> = x # first_occurrences (filter (\<lambda>y. y \<noteq> x) xs)
        @ filter (\<lambda>y. y \<notin> set (x # xs)) (first_occurrences ys)"
    by (auto simp: filter_first_occurrences_neq intro: filter_cong)
  finally show ?case by simp
qed

lemma sorted_map_first_occurrences:
  "sorted (map f xs) \<Longrightarrow> sorted (map f (first_occurrences xs))"
proof (induction xs rule: first_occurrences.induct)
  case 1
  show ?case by simp
next
  case (2 x xs)
  from "2.prems" have "sorted (map f xs)" "\<forall>y\<in>set xs. f x \<le> f y" by auto
  then have "sorted (map f (filter (\<lambda>y. y \<noteq> x) xs))"
    by (simp add: sorted_filter)
  then have "sorted (map f (first_occurrences (filter (\<lambda>y. y \<noteq> x) xs)))" by (rule "2.IH")
  with \<open>\<forall>y\<in>set xs. f x \<le> f y\<close> show ?case
    by (auto simp: set_first_occurrences)
qed

lemma own_property_keys_canonical:
  assumes "map fst qs = first_occurrences (own_property_keys ps)"
  shows "own_property_keys qs = map fst qs"
proof -
  let ?idx = "\<lambda>k. the (array_index k)"
  let ?S = "sort_key ?idx (filter (\<lambda>k. array_index k \<noteq> None) (map fst ps))"
  let ?B = "filter (\<lambda>k. array_index k = None) (map fst ps)"
  have disj: "filter (\<lambda>y. y \<notin> set ?S) (first_occurrences ?B) = first_occurrences ?B"
    by (auto simp: filter_id_conv set_first_occurrences)
  have q: "map fst qs = first_occurrences ?S @ first_occurrences ?B"
    using assms by (simp only: own_property_keys_eq first_occurrences_append disj)
  have f1: "filter (\<lambda>k. array_index k \<noteq> None) (first_occurrences ?S @ first_occurrences ?B)
            = first_occurrences ?S"
    by (auto simp: filter_id_conv filter_empty_conv set_first_occurrences)
  have f2: "filter (\<lambda>k. array_index k = None) (first_occurrences ?S @ first_occurrences ?B)
            = first_occurrences ?B"
    by (auto simp: filter_id_conv filter_empty_conv set_first_occurrences)
  have "sorted (map ?idx ?S)" by (rule sorted_sort_key)
  then have "sorted (map ?idx (first_occurrences ?S))" by (rule sorted_map_first_occurrences)
  then have s: "sort_key ?idx (first_occurrences ?S) = first_occurrences ?S"
    by (rule sort_key_id_if_sorted)
  show ?thesis
    by (simp only: own_property_keys_eq[of qs] q f1 f2 s)
qed

section \<open>Instances\<close>

lemma is_member_fixed: "is_member (fixed_member v)"
  by (simp add: fixed_member_def)

lemma is_member_computed: "is_member (computed_member f)"
  by (simp add: computed_member_def)

lemma is_member_member_of: "is_member (member_of x)"
  by (cases x rule: member_of.cases) (simp_all add: is_member_fixed is_member_computed)

lemma is_member_cases:
  "is_member p \<Longrightarrow> (\<exists>v. p = fixed_member v) \<or> (\<exists>f. p = computed_member f)"
  by (cases p) (auto simp: fixed_member_def computed_member_def split: option.splits)

lemma members_iota: "\<forall>p\<in>snd ` set (iota_members n ks :: (string \<times> 'w property) list). is_member p"
  by (induction ks arbitrary: n) (auto simp: is_member_fixed)

lemma Enum_new_auto_result:
  assumes "Enum_new cc (Array rows) True c = (Inr (e :: 'w obj), c')"
  shows "inj_on cc (set rows)
         \<and> e = \<lparr>props = auto_members cc (first_occurrences rows), extensible = False\<rparr> \<and> c' = c"
proof -
  have i: "inj_on cc (set rows)"
  proof (rule ccontr)
    assume "\<not> inj_on cc (set rows)"
    then have "fst (Enum_new cc (Array rows :: 'w enums) True c) = Inl TypeError"
      by (simp add: Enum_new_auto_error_iff)
    with assms show False by simp
  qed
  with assms show ?thesis by (auto simp: Enum_new_auto)
qed

lemma Enum_new_cases:
  assumes "Enum_new cc enums auto c = (Inr (e :: 'w obj), c')"
  shows "(\<exists>ks. enums = Array ks \<and> \<not> auto \<and> distinct ks
              \<and> e = \<lparr>props = iota_members (counter_value c) ks, extensible = False\<rparr>)
       \<or> (\<exists>rows. enums = Array rows \<and> auto \<and> inj_on cc (set rows)
              \<and> e = \<lparr>props = auto_members cc (first_occurrences rows), extensible = False\<rparr>)
       \<or> (\<exists>m. enums = Mapping m \<and> \<not> auto
              \<and> e = \<lparr>props = mapping_members m (first_occurrences (own_property_keys m)),
                     extensible = False\<rparr>)"
proof (cases enums)
  case (Array rows)
  show ?thesis
  proof (cases auto)
    case True
    with assms Array show ?thesis using Enum_new_auto_result[of cc rows c e c'] by simp
  next
    case False
    with assms Array show ?thesis using Enum_new_iota_result[of cc rows c e c'] by simp
  qed
next
  case (Mapping m)
  show ?thesis
  proof (cases auto)
    case True
    with assms Mapping show ?thesis by (simp add: Enum_new_mapping_auto)
  next
    case False
    with assms Mapping show ?thesis by (simp add: Enum_new_mapping)
  qed
qed

lemma Enum_new_instance:
  assumes "Enum_new cc enums auto c = (Inr (e :: 'w obj), c')"
  shows "\<not> extensible e \<and> (\<forall>p\<in>snd ` set (props e). is_member p) \<and> distinct (map fst (props e))"
proof -
  from Enum_new_cases[OF assms] consider
    (iota) ks where "distinct ks" "e = \<lparr>props = iota_members (counter_value c) ks, extensible = False\<rparr>"
  | (auto) rows where "inj_on cc (set rows)"
      "e = \<lparr>props = auto_members cc (first_occurrences rows), extensible = False\<rparr>"
  | (mapping) m where
      "e = \<lparr>props = mapping_members m (first_occurrences (own_property_keys m)), extensible = False\<rparr>"
    by blast
  then show ?thesis
  proof cases
    case iota
    then show ?thesis using members_iota[of "counter_value c" ks, where 'w='w]
      by (simp add: map_fst_iota_members)
  next
    case auto
    have "distinct (map cc (first_occurrences rows))"
      using auto(1) by (simp add: distinct_map distinct_first_occurrences set_first_occurrences)
    with auto show ?thesis
      by (auto simp: auto_members_def is_member_fixed o_def)
  next
    case mapping
    then show ?thesis
      by (auto simp: mapping_members_def is_member_member_of o_def distinct_first_occurrences)
  qed
qed

lemma member_enumerable: "is_member p \<Longrightarrow> p_enumerable p"
  by (cases p) (auto split: option.splits)

lemma Object_keys_members:
  assumes "\<forall>p\<in>snd ` set (props e). is_member p"
  shows "Object_keys e = own_property_keys (props e)"
proof -
  have "(case map_of (props e) k of Some p \<Rightarrow> p_enumerable p | None \<Rightarrow> False)"
    if "k \<in> set (own_property_keys (props e))" for k
  proof -
    from that have "k \<in> fst ` set (props e)" by (simp add: set_own_property_keys)
    then obtain p where p: "map_of (props e) k = Some p"
      by (cases "map_of (props e) k") (auto simp: map_of_eq_None_iff)
    then have "(k, p) \<in> set (props e)" by (rule map_of_SomeD)
    then have "is_member p" using assms by force
    with p show ?thesis by (simp add: member_enumerable)
  qed
  then show ?thesis by (simp add: Object_keys_def filter_id_conv)
qed

lemma admissible_member_unchanged:
  assumes "is_member cur" "admissible cur d" "\<not> (is_accessor_descriptor d \<and> is_data_descriptor d)"
  shows "apply_descriptor cur d = cur"
proof -
  from is_member_cases[OF assms(1)] show ?thesis
  proof
    assume "\<exists>v. cur = fixed_member v"
    then obtain v where cur: "cur = DataP v False True False" by (auto simp: fixed_member_def)
    from assms(2) have "d_configurable d \<noteq> Some True"
      and "d_enumerable d = None \<or> d_enumerable d = Some True"
      and "\<not> is_accessor_descriptor d"
      and "d_writable d \<noteq> Some True"
      and "d_value d = None \<or> d_value d = Some v"
      unfolding cur admissible_def is_accessor_property_def same_value_def
      by (auto split: option.splits)
    then show ?thesis
      unfolding cur apply_descriptor_def
      by (cases "d_configurable d"; cases "d_writable d") (auto simp: Let_def)
  next
    assume "\<exists>f. cur = computed_member f"
    then obtain f where cur: "cur = AccessorP (Some f) None True False"
      by (auto simp: computed_member_def)
    from assms(2) have "d_configurable d \<noteq> Some True"
      and "d_enumerable d = None \<or> d_enumerable d = Some True"
      and "(\<not> is_accessor_descriptor d \<and> \<not> is_data_descriptor d) \<or> is_accessor_descriptor d"
      and "d_get d = None \<or> d_get d = Some (Some f)"
      and "d_set d = None \<or> d_set d = Some None"
      unfolding cur admissible_def is_accessor_property_def same_fun_def same_setter_def
      by (auto split: option.splits)
    moreover from this(3) assms(3) have "\<not> is_data_descriptor d" by blast
    ultimately show ?thesis
      unfolding cur apply_descriptor_def
      by (cases "d_configurable d") (auto simp: Let_def)
  qed
qed

lemma frozen_defineProperty:
  assumes "\<not> extensible e" "\<forall>p\<in>snd ` set (props e). is_member p"
  shows "Object_defineProperty e k d = Inl TypeError \<or> Object_defineProperty e k d = Inr e"
proof (cases "map_of (props e) k")
  case None
  with assms(1) show ?thesis
    by (simp add: Object_defineProperty_def define_own_property_def)
next
  case (Some cur)
  then have "(k, cur) \<in> set (props e)" by (rule map_of_SomeD)
  then have m: "is_member cur" using assms(2) by force
  show ?thesis
  proof (cases "\<not> (is_accessor_descriptor d \<and> is_data_descriptor d) \<and> admissible cur d")
    case True
    then have "apply_descriptor cur d = cur"
      using admissible_member_unchanged[OF m] by blast
    with True Some show ?thesis
      by (simp add: Object_defineProperty_def define_own_property_def update_property_same)
  next
    case False
    with Some show ?thesis
      by (auto simp: Object_defineProperty_def define_own_property_def)
  qed
qed

lemma frozen_assign:
  assumes "\<not> extensible e" "\<forall>p\<in>snd ` set (props e). is_member p"
  shows "assign strict e k v w = (if strict then Some TypeError else None, e, w)"
proof (cases "map_of (props e) k")
  case None
  with assms(1) show ?thesis
    by (simp add: assign_def ordinary_set_def define_own_property_def)
next
  case (Some cur)
  then have "(k, cur) \<in> set (props e)" by (rule map_of_SomeD)
  then have "is_member cur" using assms(2) by force
  from is_member_cases[OF this] Some show ?thesis
    by (auto simp: assign_def ordinary_set_def fixed_member_def computed_member_def)
qed

lemma frozen_delete:
  assumes "\<forall>p\<in>snd ` set (props e). is_member p"
  shows "delete_property strict e k =
           (if strict \<and> k \<in> fst ` set (props e) then Some TypeError else None, e)"
proof (cases "map_of (props e) k")
  case None
  moreover from None have "k \<notin> fst ` set (props e)" by (simp add: map_of_eq_None_iff)
  ultimately show ?thesis
    by (simp add: delete_property_def)
next
  case (Some cur)
  then have in_props: "(k, cur) \<in> set (props e)" by (rule map_of_SomeD)
  then have "is_member cur" using assms by force
  then have "\<not> p_configurable cur" by (cases cur) (auto split: option.splits)
  with Some in_props show ?thesis
    by (force simp: delete_property_def)
qed

lemma Enum_keys_instance:
  assumes "Enum_new cc enums auto c = (Inr (e :: 'w obj), c')"
  shows "Enum_keys e = own_property_keys (props e)"
  using Enum_new_instance[OF assms] by (simp add: Enum_keys_def Object_keys_members)

text \<open>
  Claim C6. An instance the constructor returned is frozen: it is not extensible, and
  defining a property on it (a new key or an existing one) either throws a TypeError or
  succeeds without changing it (a descriptor that asks for what the property already
  is); an assignment to any key, new or existing, changes neither the instance nor
  anything else (it throws in strict code and is ignored in sloppy code); deleting a key
  leaves the instance as it is. So after any sequence of such attempts the instance is
  what the constructor returned.
\<close>

theorem enum_is_frozen:
  assumes "Enum_new cc enums auto c = (Inr (e :: 'w obj), c')"
  shows "\<not> extensible e
       \<and> (Object_defineProperty e k d = Inl TypeError \<or> Object_defineProperty e k d = Inr e)
       \<and> (k \<notin> set (Enum_keys e) \<longrightarrow> Object_defineProperty e k d = Inl TypeError)
       \<and> assign strict e k v w = (if strict then Some TypeError else None, e, w)
       \<and> delete_property strict e k =
           (if strict \<and> k \<in> set (Enum_keys e) then Some TypeError else None, e)
       \<and> fold attempt ops (e, w) = (e, w)"
proof -
  from Enum_new_instance[OF assms] have ne: "\<not> extensible e"
    and mem: "\<forall>p\<in>snd ` set (props e). is_member p" by auto
  have keys: "set (Enum_keys e) = fst ` set (props e)"
    by (simp add: Enum_keys_instance[OF assms] set_own_property_keys)
  have new_key: "Object_defineProperty e k d = Inl TypeError" if "k \<notin> set (Enum_keys e)"
  proof -
    from that keys have "map_of (props e) k = None" by (simp add: map_of_eq_None_iff)
    with ne show ?thesis by (simp add: Object_defineProperty_def define_own_property_def)
  qed
  have one: "attempt op (e, w') = (e, w')" for op w'
  proof (cases op)
    case (DefineProperty k' d')
    then show ?thesis using frozen_defineProperty[OF ne mem, of k' d'] by auto
  next
    case (Assign s' k' v')
    then show ?thesis by (simp add: frozen_assign[OF ne mem])
  next
    case (Delete s' k')
    then show ?thesis by (simp add: frozen_delete[OF mem])
  qed
  have all: "fold attempt ops (e, w) = (e, w)"
    by (induction ops) (simp_all add: one)
  show ?thesis
    using ne frozen_defineProperty[OF ne mem, of k d] new_key frozen_assign[OF ne mem, of strict k v w]
      frozen_delete[OF mem, of strict k] keys all
    by simp
qed

theorem enum_is_frozen_witness:
  "Enum_new upper_ascii (Array [''RED''] :: nat enums) False None =
     (Inr \<lparr>props = [(''RED'', fixed_member (JNum 0))], extensible = False\<rparr>, Some 1)
   \<and> assign True (\<lparr>props = [(''RED'', fixed_member (JNum 0))], extensible = False\<rparr> :: nat obj)
       ''RED'' (JNum 7) 0
     = (Some TypeError, \<lparr>props = [(''RED'', fixed_member (JNum 0))], extensible = False\<rparr>, 0)
   \<and> Object_defineProperty (\<lparr>props = [(''RED'', fixed_member (JNum 0))], extensible = False\<rparr> :: nat obj)
       ''BLUE'' (no_fields\<lparr>d_value := Some (JNum 1)\<rparr>) = Inl TypeError
   \<and> fold attempt [Assign False ''BLUE'' (JNum 1), Delete False ''RED'',
                    DefineProperty ''RED'' (no_fields\<lparr>d_value := Some (JNum 1)\<rparr>)]
       (\<lparr>props = [(''RED'', fixed_member (JNum 0))], extensible = False\<rparr> :: nat obj, 0)
     = (\<lparr>props = [(''RED'', fixed_member (JNum 0))], extensible = False\<rparr>, 0)"
proof -
  let ?e = "\<lparr>props = [(''RED'', fixed_member (JNum 0))], extensible = False\<rparr> :: nat obj"
  have new: "Enum_new upper_ascii (Array [''RED''] :: nat enums) False None = (Inr ?e, Some 1)"
    by (simp add: Enum_new_iota)
  have k: "Enum_keys ?e = [''RED'']"
    by (simp add: Enum_keys_instance[OF new] own_property_keys_eq array_index_def)
  from enum_is_frozen[OF new, of "''BLUE''" "no_fields\<lparr>d_value := Some (JNum 1)\<rparr>" True "JNum 7" 0
      "[Assign False ''BLUE'' (JNum 1), Delete False ''RED'',
        DefineProperty ''RED'' (no_fields\<lparr>d_value := Some (JNum 1)\<rparr>)]"]
    enum_is_frozen[OF new, of "''RED''" "no_fields\<lparr>d_value := Some (JNum 1)\<rparr>" True "JNum 7" 0 "[]"]
  show ?thesis using new k by simp
qed






lemma call_method_own:
  "has_own e name \<Longrightarrow> call_method e name body w = (Inl TypeError, snd (Get e name w))"
  by (simp add: call_method_def split: prod.split)

lemma call_method_class:
  "\<not> has_own e name \<Longrightarrow> call_method e name body w = body e w"
  by (simp add: call_method_def)

lemma call_keys_eq: "\<not> has_own e ''keys'' \<Longrightarrow> call_keys e w = (Inr (Enum_keys e), w)"
  by (simp add: call_keys_def call_method_class)

lemma call_keys_own:
  "has_own e ''keys'' \<Longrightarrow> call_keys e w = (Inl TypeError, snd (Get e ''keys'' w))"
  by (simp add: call_keys_def call_method_own)

lemma Enum_values_eq:
  "\<not> has_own e ''keys'' \<Longrightarrow>
   Enum_values e w =
     (Inr (first_occurrences (filter (\<lambda>v. v \<noteq> JNaN) (fst (map_Get e (Enum_keys e) w)))),
      snd (map_Get e (Enum_keys e) w))"
  by (simp add: Enum_values_def call_keys_eq filter_first_index_eq split: prod.split)

lemma Enum_values_own:
  "has_own e ''keys'' \<Longrightarrow> Enum_values e w = (Inl TypeError, snd (Get e ''keys'' w))"
  by (simp add: Enum_values_def call_keys_own)

lemma call_values_eq:
  "\<not> has_own e ''values'' \<Longrightarrow> \<not> has_own e ''keys'' \<Longrightarrow>
   call_values e w =
     (Inr (first_occurrences (filter (\<lambda>v. v \<noteq> JNaN) (fst (map_Get e (Enum_keys e) w)))),
      snd (map_Get e (Enum_keys e) w))"
  by (simp add: call_values_def call_method_class Enum_values_eq)


lemma keys_order_instance:
  assumes "Enum_new cc enums auto c = (Inr (e :: 'w obj), c')"
  shows "filter (\<lambda>k. array_index k = None) (Enum_keys e)
           = filter (\<lambda>k. array_index k = None) (map fst (props e))
       \<and> Enum_keys e = filter (\<lambda>k. array_index k \<noteq> None) (Enum_keys e)
                        @ filter (\<lambda>k. array_index k = None) (Enum_keys e)
       \<and> sorted (map (\<lambda>k. the (array_index k)) (filter (\<lambda>k. array_index k \<noteq> None) (Enum_keys e)))
       \<and> set (Enum_keys e) = fst ` set (props e)
       \<and> distinct (Enum_keys e)"
proof -
  let ?idx = "\<lambda>k. the (array_index k)"
  let ?S = "sort_key ?idx (filter (\<lambda>k. array_index k \<noteq> None) (map fst (props e)))"
  let ?B = "filter (\<lambda>k. array_index k = None) (map fst (props e))"
  have k: "Enum_keys e = ?S @ ?B"
    by (simp only: Enum_keys_instance[OF assms] own_property_keys_eq)
  have f1: "filter (\<lambda>k. array_index k \<noteq> None) (?S @ ?B) = ?S"
    by (auto simp: filter_id_conv filter_empty_conv)
  have f2: "filter (\<lambda>k. array_index k = None) (?S @ ?B) = ?B"
    by (auto simp: filter_id_conv filter_empty_conv)
  have s: "sorted (map ?idx ?S)" by (rule sorted_sort_key)
  have d: "distinct (Enum_keys e)"
    using Enum_new_instance[OF assms]
    by (simp add: Enum_keys_instance[OF assms] distinct_own_property_keys)
  have st: "set (Enum_keys e) = fst ` set (props e)"
    by (simp add: Enum_keys_instance[OF assms] set_own_property_keys)
  show ?thesis
    unfolding k f1 f2 using s d st unfolding k by simp
qed

lemma first_occurrences_map_inj:
  "inj_on f (set xs) \<Longrightarrow> first_occurrences (map f xs) = map f (first_occurrences xs)"
proof (induction xs rule: first_occurrences.induct)
  case 1
  show ?case by simp
next
  case (2 x xs)
  from "2.prems" have eq: "\<forall>y\<in>set xs. (f y \<noteq> f x) = (y \<noteq> x)"
    by (auto simp: inj_on_def)
  have "filter (\<lambda>y. y \<noteq> f x) (map f xs) = map f (filter (\<lambda>y. f y \<noteq> f x) xs)"
    by (simp add: filter_map o_def)
  also have "filter (\<lambda>y. f y \<noteq> f x) xs = filter (\<lambda>y. y \<noteq> x) xs"
    using eq by (intro filter_cong) auto
  finally have f: "filter (\<lambda>y. y \<noteq> f x) (map f xs) = map f (filter (\<lambda>y. y \<noteq> x) xs)" .
  from "2.prems" have "inj_on f (set (filter (\<lambda>y. y \<noteq> x) xs))"
    by (auto simp: inj_on_def)
  then have "first_occurrences (map f (filter (\<lambda>y. y \<noteq> x) xs)) =
             map f (first_occurrences (filter (\<lambda>y. y \<noteq> x) xs))"
    by (rule "2.IH")
  with f show ?case by simp
qed

lemma props_declared:
  assumes "Enum_new cc enums auto c = (Inr (e :: 'w obj), c')"
  shows "filter (\<lambda>k. array_index k = None) (map fst (props e))
           = filter (\<lambda>k. array_index k = None) (declared_keys cc enums auto)
       \<and> fst ` set (props e) = set (declared_keys cc enums auto)"
proof -
  from Enum_new_cases[OF assms] consider
    (iota) ks where "enums = Array ks" "\<not> auto" "distinct ks"
      "e = \<lparr>props = iota_members (counter_value c) ks, extensible = False\<rparr>"
  | (auto) rows where "enums = Array rows" "auto" "inj_on cc (set rows)"
      "e = \<lparr>props = auto_members cc (first_occurrences rows), extensible = False\<rparr>"
  | (mapping) m where "enums = Mapping m"
      "e = \<lparr>props = mapping_members m (first_occurrences (own_property_keys m)), extensible = False\<rparr>"
    by blast
  then show ?thesis
  proof cases
    case iota
    have "map fst (props e) = declared_keys cc enums auto"
      using iota by (simp add: map_fst_iota_members first_occurrences_distinct)
    then show ?thesis by (metis set_map)
  next
    case auto
    have "map fst (props e) = declared_keys cc enums auto"
      using auto by (simp add: auto_members_def o_def first_occurrences_map_inj)
    then show ?thesis by (metis set_map)
  next
    case mapping
    let ?non = "\<lambda>k. array_index k = None"
    have p: "map fst (props e) = first_occurrences (own_property_keys m)"
      using mapping by (simp add: mapping_members_def o_def)
    have f: "filter ?non (own_property_keys m) = filter ?non (map fst m)"
      unfolding own_property_keys_eq by (auto simp: filter_id_conv filter_empty_conv)
    have "filter ?non (first_occurrences (own_property_keys m))
            = first_occurrences (filter ?non (own_property_keys m))"
      by (simp add: first_occurrences_filter)
    also have "\<dots> = first_occurrences (filter ?non (map fst m))"
      by (simp only: f)
    also have "\<dots> = filter ?non (first_occurrences (map fst m))"
      by (rule first_occurrences_filter)
    finally have a: "filter ?non (map fst (props e)) = filter ?non (declared_keys cc enums auto)"
      using p mapping by simp
    have "set (map fst (props e)) = set (declared_keys cc enums auto)"
      using p mapping by (simp add: set_first_occurrences set_own_property_keys)
    then have b: "fst ` set (props e) = set (declared_keys cc enums auto)" by simp
    from a b show ?thesis by blast
  qed
qed


lemma has_own_instance:
  assumes "Enum_new cc enums auto c = (Inr (e :: 'w obj), c')"
  shows "has_own e k \<longleftrightarrow> k \<in> set (declared_keys cc enums auto)"
proof -
  have "has_own e k \<longleftrightarrow> k \<in> fst ` set (props e)"
    by (simp add: has_own_def map_of_eq_None_iff)
  with props_declared[OF assms] show ?thesis by simp
qed

section \<open>The query methods\<close>

lemma array_index_examples:
  "array_index ''A'' = None" "array_index ''T'' = None" "array_index ''N'' = None"
  "array_index ''B'' = None" "array_index ''b'' = None" "array_index ''0'' = Some 0"
  "array_index ''FOO'' = None" "array_index ''RED'' = None" "array_index ''1'' = Some 1"
  by (simp_all add: array_index_def dec_val_def)


































lemma map_Get_fixed:
  "\<forall>k\<in>set ks. \<exists>x. map_of (props e) k = Some (fixed_member x) \<Longrightarrow>
   map_Get e ks w = (map (\<lambda>k. fst (Get e k w)) ks, w)"
proof (induction ks)
  case Nil
  show ?case by simp
next
  case (Cons k ks)
  then obtain x where "map_of (props e) k = Some (fixed_member x)" by auto
  then have "Get e k w = (x, w)" by (rule Get_fixed_member)
  with Cons show ?case by simp
qed

lemma Get_auto:
  assumes "inj_on cc (set rows)" "r \<in> set rows"
  shows "Get \<lparr>props = auto_members cc (first_occurrences rows), extensible = b\<rparr> (cc r) w = (JStr r, w)"
proof -
  have "inj_on cc (insert r (set (first_occurrences rows)))"
    using assms by (simp add: set_first_occurrences insert_absorb)
  from map_of_auto_members[OF this] assms(2)
  have "map_of (auto_members cc (first_occurrences rows)) (cc r) = Some (fixed_member (JStr r))"
    by (simp add: set_first_occurrences)
  then show ?thesis by (intro Get_fixed_member) simp
qed

lemma NaN_getter_enum_new:
  "Enum_new upper_ascii (Mapping [(''N'', Function always_NaN)] :: nat enums) False None =
     (Inr \<lparr>props = [(''N'', computed_member always_NaN)], extensible = False\<rparr>, None)"
proof -
  have "own_property_keys [(''N'', Function always_NaN :: nat member_init)] = [''N'']"
    by (simp add: own_property_keys_eq array_index_examples)
  then show ?thesis
    by (simp add: Enum_new_mapping mapping_members_def)
qed

text \<open>
  Claim C3 against the code. \<^verbatim>\<open>new Enum({ N: () => NaN })\<close> reads \<^verbatim>\<open>N\<close> as the result of a
  fresh call, NaN, and \<^verbatim>\<open>values()\<close> returns the empty sequence: the result of the call does
  not appear in it, as the claim and the comment on the class (\<^emph>\<open>Getter results will
  appear in ::values\<close>) say it does. The filter \<^verbatim>\<open>s.indexOf(v) === i\<close> that drops repeated
  values drops NaN too, which \<^verbatim>\<open>indexOf\<close> never finds.
\<close>

theorem NaN_result_not_in_values:
  "Enum_new upper_ascii (Mapping [(''N'', Function always_NaN)] :: nat enums) False None =
     (Inr \<lparr>props = [(''N'', computed_member always_NaN)], extensible = False\<rparr>, None)
   \<and> Get (\<lparr>props = [(''N'', computed_member always_NaN)], extensible = False\<rparr> :: nat obj) ''N'' 0
       = (JNaN, 0)
   \<and> call_values (\<lparr>props = [(''N'', computed_member always_NaN)], extensible = False\<rparr> :: nat obj) 0
       = (Inr [], 0)"
proof -
  let ?e = "\<lparr>props = [(''N'', computed_member always_NaN)], extensible = False\<rparr> :: nat obj"
  have k: "Enum_keys ?e = [''N'']"
    unfolding Enum_keys_instance[OF NaN_getter_enum_new]
    by (simp add: own_property_keys_eq array_index_examples)
  have g: "Get ?e ''N'' 0 = (JNaN, 0)"
    by (simp add: Get_def computed_member_def always_NaN_def)
  have o: "\<not> has_own ?e ''values''" "\<not> has_own ?e ''keys''"
    by (simp_all add: has_own_def)
  have v: "call_values ?e 0 = (Inr [], 0)"
    unfolding call_values_eq[OF o] k by (simp add: Get_def computed_member_def always_NaN_def)
  from NaN_getter_enum_new g v show ?thesis by simp
qed

lemma foo_foo_enum_new:
  "Enum_new upper_ascii (Array [''foo'', ''foo''] :: nat enums) True None =
     (Inr \<lparr>props = [(''FOO'', fixed_member (JStr ''foo''))], extensible = False\<rparr>, None)"
  by (simp add: Enum_new_auto auto_members_def upper_ascii_foo)

text \<open>
  Claim C2, as stated, fails in its last part: \<^verbatim>\<open>new Enum(['foo', 'foo'], true)\<close> is accepted
  (the second definition of \<^verbatim>\<open>FOO\<close> asks for the value the property has), the instance has
  the one key \<^verbatim>\<open>FOO\<close>, and \<^verbatim>\<open>values()\<close> returns the one string \<^verbatim>\<open>foo\<close>, not the two input strings.
\<close>

theorem auto_values_collapse_repeated_input:
  "Enum_new upper_ascii (Array [''foo'', ''foo''] :: nat enums) True None =
     (Inr \<lparr>props = [(''FOO'', fixed_member (JStr ''foo''))], extensible = False\<rparr>, None)
   \<and> call_values (\<lparr>props = [(''FOO'', fixed_member (JStr ''foo''))], extensible = False\<rparr> :: nat obj) 0
       = (Inr [JStr ''foo''], 0)
   \<and> [JStr ''foo''] \<noteq> map JStr [''foo'', ''foo'']"
proof -
  let ?e = "\<lparr>props = [(''FOO'', fixed_member (JStr ''foo''))], extensible = False\<rparr> :: nat obj"
  have k: "Enum_keys ?e = [''FOO'']"
    unfolding Enum_keys_instance[OF foo_foo_enum_new]
    by (simp add: own_property_keys_eq array_index_examples)
  have o: "\<not> has_own ?e ''values''" "\<not> has_own ?e ''keys''"
    by (simp_all add: has_own_def)
  have v: "call_values ?e 0 = (Inr [JStr ''foo''], 0)"
    unfolding call_values_eq[OF o] k by (simp add: Get_def fixed_member_def)
  from foo_foo_enum_new v show ?thesis by simp
qed

text \<open>
  Claim C2, amended. For every Enum constructed from an ordered sequence of strings with
  the auto flag true, the keys of the instance are the upper-snake-case normalizations of
  the input strings, and the value under the key of an input string is that string,
  unnormalized. \<^verbatim>\<open>values()\<close> returns each input string once, in the order of \<^verbatim>\<open>keys()\<close>; when
  the input strings are pairwise distinct and no key is an array index, \<^verbatim>\<open>keys()\<close> is the
  sequence of the normalizations and \<^verbatim>\<open>values()\<close> is exactly the input strings, both in
  declaration order. (A normalization in upper case is never the name \<^verbatim>\<open>values\<close> or \<^verbatim>\<open>keys\<close>
  of a method. The theorem holds for every function \<open>constantCase\<close>, so it says what
  \<^verbatim>\<open>values()\<close> does for one that returns such a name as well: then it throws a TypeError.)
\<close>

theorem auto_keys_and_values:
  assumes "Enum_new cc (Array rows) True c = (Inr (e :: 'w obj), c')"
  shows "set (Enum_keys e) = cc ` set rows
       \<and> (\<forall>r\<in>set rows. \<forall>w. Get e (cc r) w = (JStr r, w))
       \<and> (\<forall>w. call_values e w =
                (if ''values'' \<in> cc ` set rows \<or> ''keys'' \<in> cc ` set rows then Inl TypeError
                 else Inr (map (\<lambda>k. fst (Get e k w)) (Enum_keys e)), w)
              \<and> set (map (\<lambda>k. fst (Get e k w)) (Enum_keys e)) = JStr ` set rows
              \<and> distinct (map (\<lambda>k. fst (Get e k w)) (Enum_keys e)))
       \<and> (distinct rows \<and> (\<forall>r\<in>set rows. array_index (cc r) = None) \<longrightarrow>
            Enum_keys e = map cc rows
            \<and> (\<forall>w. call_values e w =
                  (if ''values'' \<in> cc ` set rows \<or> ''keys'' \<in> cc ` set rows then Inl TypeError
                   else Inr (map JStr rows), w)))"
proof -
  from Enum_new_auto_result[OF assms] have inj: "inj_on cc (set rows)"
    and e: "e = \<lparr>props = auto_members cc (first_occurrences rows), extensible = False\<rparr>"
    by auto
  have get: "Get e (cc r) w = (JStr r, w)" if "r \<in> set rows" for r w
    unfolding e using inj that by (rule Get_auto)
  have pk: "map fst (props e) = map cc (first_occurrences rows)"
    using e by (simp add: auto_members_def o_def)
  have dom: "fst ` set (props e) = cc ` set rows"
    using pk by (metis set_map set_first_occurrences)
  from keys_order_instance[OF assms] have keys: "set (Enum_keys e) = cc ` set rows"
    and dk: "distinct (Enum_keys e)"
    using dom by auto
  have own: "has_own e k \<longleftrightarrow> k \<in> cc ` set rows" for k
    using dom by (simp add: has_own_def map_of_eq_None_iff)
  have state: "snd (Get e k w) = w" if "k \<in> cc ` set rows" for k w
    using that get by auto
  have fixed: "\<forall>k\<in>set (Enum_keys e). \<exists>x. map_of (props e) k = Some (fixed_member x)"
  proof
    fix k assume "k \<in> set (Enum_keys e)"
    then obtain r where r: "r \<in> set rows" "k = cc r" using keys by auto
    have "inj_on cc (insert r (set (first_occurrences rows)))"
      using inj r by (simp add: set_first_occurrences insert_absorb)
    then have "map_of (props e) k = Some (fixed_member (JStr r))"
      unfolding e using r by (simp add: map_of_auto_members set_first_occurrences)
    then show "\<exists>x. map_of (props e) k = Some (fixed_member x)" by blast
  qed
  have vals: "call_values e w =
                (if ''values'' \<in> cc ` set rows \<or> ''keys'' \<in> cc ` set rows then Inl TypeError
                 else Inr (map (\<lambda>k. fst (Get e k w)) (Enum_keys e)), w)
              \<and> set (map (\<lambda>k. fst (Get e k w)) (Enum_keys e)) = JStr ` set rows
              \<and> distinct (map (\<lambda>k. fst (Get e k w)) (Enum_keys e))" for w
  proof -
    let ?g = "\<lambda>k. fst (Get e k w)"
    let ?s = "map ?g (Enum_keys e)"
    have reads: "map_Get e (Enum_keys e) w = (?s, w)"
      using fixed by (rule map_Get_fixed)
    have gk: "?g (cc r) = JStr r" if "r \<in> set rows" for r
      using get[OF that] by simp
    have set_s: "set ?s = JStr ` set rows"
      using keys gk by (auto simp: image_iff)
    have "inj_on ?g (set (Enum_keys e))"
    proof (rule inj_onI)
      fix x y
      assume "x \<in> set (Enum_keys e)" "y \<in> set (Enum_keys e)" and eq: "?g x = ?g y"
      then obtain r r' where "r \<in> set rows" "x = cc r" "r' \<in> set rows" "y = cc r'"
        using keys by auto
      with eq gk show "x = y" by auto
    qed
    with dk have ds: "distinct ?s" by (simp add: distinct_map)
    have "JNaN \<notin> set ?s" using set_s by auto
    then have "\<forall>v\<in>set ?s. v \<noteq> JNaN" by blast
    then have nonan: "filter (\<lambda>v. v \<noteq> JNaN) ?s = ?s" by (simp only: filter_id_conv)
    have call: "call_values e w =
                (if ''values'' \<in> cc ` set rows \<or> ''keys'' \<in> cc ` set rows then Inl TypeError
                 else Inr ?s, w)"
    proof (cases "''values'' \<in> cc ` set rows")
      case True
      then have "call_values e w = (Inl TypeError, w)"
        by (simp add: call_values_def call_method_own own state)
      with True show ?thesis by simp
    next
      case nv: False
      show ?thesis
      proof (cases "''keys'' \<in> cc ` set rows")
        case True
        then have "call_values e w = (Inl TypeError, w)"
          using nv by (simp add: call_values_def call_method_class Enum_values_own own state)
        with True show ?thesis by simp
      next
        case False
        with nv have "call_values e w = (Inr ?s, w)"
          using ds nonan by (simp add: call_values_eq own reads first_occurrences_distinct)
        with nv False show ?thesis by simp
      qed
    qed
    with set_s ds show ?thesis by blast
  qed
  have exact: "Enum_keys e = map cc rows
            \<and> (\<forall>w. call_values e w =
                  (if ''values'' \<in> cc ` set rows \<or> ''keys'' \<in> cc ` set rows then Inl TypeError
                   else Inr (map JStr rows), w))"
    if d: "distinct rows" and ni: "\<forall>r\<in>set rows. array_index (cc r) = None"
  proof -
    from d have "first_occurrences rows = rows" by (rule first_occurrences_distinct)
    with pk have pk': "map fst (props e) = map cc rows" by simp
    then have "\<forall>k\<in>set (map fst (props e)). array_index k = None"
      using ni by simp
    then have "own_property_keys (props e) = map fst (props e)"
      by (rule own_property_keys_no_index)
    with pk' have k: "Enum_keys e = map cc rows"
      by (simp add: Enum_keys_instance[OF assms])
    have "map (\<lambda>k. fst (Get e k w)) (map cc rows) = map JStr rows" for w
      using get by (induction rows) auto
    with vals k show ?thesis by simp
  qed
  from keys get vals exact show ?thesis by blast
qed

theorem auto_keys_and_values_witness:
  "Enum_new upper_ascii (Array [''foo'', ''b''] :: nat enums) True None =
     (Inr \<lparr>props = [(''FOO'', fixed_member (JStr ''foo'')), (''B'', fixed_member (JStr ''b''))],
           extensible = False\<rparr>, None)
   \<and> Enum_keys (\<lparr>props = [(''FOO'', fixed_member (JStr ''foo'')), (''B'', fixed_member (JStr ''b''))],
           extensible = False\<rparr> :: nat obj) = [''FOO'', ''B'']
   \<and> call_values (\<lparr>props = [(''FOO'', fixed_member (JStr ''foo'')), (''B'', fixed_member (JStr ''b''))],
           extensible = False\<rparr> :: nat obj) 0 = (Inr [JStr ''foo'', JStr ''b''], 0)
   \<and> Get (\<lparr>props = [(''FOO'', fixed_member (JStr ''foo'')), (''B'', fixed_member (JStr ''b''))],
           extensible = False\<rparr> :: nat obj) ''FOO'' 0 = (JStr ''foo'', 0)"
proof -
  let ?e = "\<lparr>props = [(''FOO'', fixed_member (JStr ''foo'')), (''B'', fixed_member (JStr ''b''))],
           extensible = False\<rparr> :: nat obj"
  have ub: "upper_ascii ''b'' = ''B''" by (simp add: upper_ascii_def)
  have new: "Enum_new upper_ascii (Array [''foo'', ''b''] :: nat enums) True None = (Inr ?e, None)"
    by (simp add: Enum_new_auto auto_members_def upper_ascii_foo ub)
  have hyp: "distinct [''foo'', ''b''] \<and> (\<forall>r\<in>set [''foo'', ''b'']. array_index (upper_ascii r) = None)"
    by (simp add: upper_ascii_foo ub array_index_examples)
  have hidden: "\<not> (''values'' \<in> upper_ascii ` set [''foo'', ''b'']
                  \<or> ''keys'' \<in> upper_ascii ` set [''foo'', ''b''])"
    by (simp add: upper_ascii_foo ub)
  from auto_keys_and_values[OF new] hyp have
    k: "Enum_keys ?e = map upper_ascii [''foo'', ''b'']"
    and v: "\<forall>w. call_values ?e w =
              (if ''values'' \<in> upper_ascii ` set [''foo'', ''b'']
                  \<or> ''keys'' \<in> upper_ascii ` set [''foo'', ''b''] then Inl TypeError
               else Inr (map JStr [''foo'', ''b'']), w)"
    and g: "\<forall>r\<in>set [''foo'', ''b'']. \<forall>w. Get ?e (upper_ascii r) w = (JStr r, w)"
    by blast+
  from v hidden have v': "call_values ?e 0 = (Inr (map JStr [''foo'', ''b'']), 0)"
    by (simp only: if_False)
  from g have "Get ?e (upper_ascii ''foo'') 0 = (JStr ''foo'', 0)" by simp
  with new k v' show ?thesis by (simp add: upper_ascii_foo ub)
qed

end
